theory Spec2Isabelle
  imports Complex_Main "HOL-Library.Sublist" "HOL-Library.Multiset"
begin

section \<open>Python primitives used by the package\<close>

text \<open>
  A Python \<open>str\<close> is modelled as a HOL \<open>string\<close>; one \<open>char\<close> stands for one
  code point (the model covers code points below 256). Python integers are \<open>int\<close>, a
  \<open>float\<close> score is a \<open>real\<close>: scores are only copied and compared.
\<close>

datatype py_error = RuntimeError string

definition bslash :: char where
  "bslash = CHR 0x5C"

definition squote :: char where
  "squote = CHR 0x27"

definition newline :: char where
  "newline = CHR 0x0A"

text \<open>\<open>str.isspace\<close> on one code point below 256.\<close>

definition is_space :: "char \<Rightarrow> bool" where
  "is_space c = ((of_char c :: nat) \<in> {9, 10, 11, 12, 13, 28, 29, 30, 31, 32, 133, 160})"

text \<open>\<open>s.strip()\<close>: leading and trailing whitespace removed.\<close>

definition strip :: "string \<Rightarrow> string" where
  "strip s = rev (dropWhile is_space (rev (dropWhile is_space s)))"

text \<open>
  Slicing never raises. An index \<open>i\<close> of a slice of a sequence of length \<open>n\<close> is
  first moved by \<open>n\<close> when negative, then clamped to \<open>0..n\<close>.
\<close>

definition slice_index :: "int \<Rightarrow> nat \<Rightarrow> nat" where
  "slice_index i n = (if i < 0 then nat (max 0 (int n + i)) else min (nat i) n)"

text \<open>\<open>s[:i]\<close>, \<open>s[i:]\<close> and \<open>s[i:j]\<close>.\<close>

definition slice_to :: "'a list \<Rightarrow> int \<Rightarrow> 'a list" where
  "slice_to s i = take (slice_index i (length s)) s"

definition slice_from :: "'a list \<Rightarrow> int \<Rightarrow> 'a list" where
  "slice_from s i = drop (slice_index i (length s)) s"

definition slice :: "'a list \<Rightarrow> int \<Rightarrow> int \<Rightarrow> 'a list" where
  "slice s i j =
     (let lo = slice_index i (length s); hi = slice_index j (length s)
      in take (hi - lo) (drop lo s))"

text \<open>
  \<open>sorted(xs, key=f)\<close> and \<open>list.sort(key=f)\<close> are stable; so is
  \<open>sorted(xs, key=f, reverse=True)\<close>, which keeps the original order of elements with
  equal keys while the keys descend.
\<close>

definition sorted_by :: "('a \<Rightarrow> 'k::linorder) \<Rightarrow> 'a list \<Rightarrow> 'a list" where
  "sorted_by f xs = sort_key f xs"

definition sorted_by_reverse :: "('a \<Rightarrow> 'k::linorder) \<Rightarrow> 'a list \<Rightarrow> 'a list" where
  "sorted_by_reverse f xs = rev (sort_key f (rev xs))"

text \<open>
  \<open>s.replace(old, new)\<close>: every occurrence of \<open>old\<close>, found from the left without
  overlap, becomes \<open>new\<close>. An empty \<open>old\<close> matches before every character and at the end.
\<close>

fun replace_nonempty :: "string \<Rightarrow> string \<Rightarrow> string \<Rightarrow> string" where
  "replace_nonempty old new [] = []"
| "replace_nonempty old new (c # cs) =
     (if prefix old (c # cs) then new @ replace_nonempty old new (drop (length old - 1) cs)
      else c # replace_nonempty old new cs)"

definition str_replace :: "string \<Rightarrow> string \<Rightarrow> string \<Rightarrow> string" where
  "str_replace s old new =
     (if old = [] then new @ concat (map (\<lambda>c. c # new) s) else replace_nonempty old new s)"

text \<open>\<open>sep.join(xs)\<close>.\<close>

fun str_join :: "string \<Rightarrow> string list \<Rightarrow> string" where
  "str_join sep [] = []"
| "str_join sep [x] = x"
| "str_join sep (x # y # ys) = x @ sep @ str_join sep (y # ys)"

text \<open>\<open>str(n)\<close> for an integer, and the format \<open>{n:02d}\<close>.\<close>

fun str_nat :: "nat \<Rightarrow> string" where
  "str_nat n =
     (if n < 10 then [''0123456789'' ! n]
      else str_nat (n div 10) @ [''0123456789'' ! (n mod 10)])"

definition str_int :: "int \<Rightarrow> string" where
  "str_int i = (if i < 0 then CHR ''-'' # str_nat (nat (- i)) else str_nat (nat i))"

definition format_02d :: "int \<Rightarrow> string" where
  "format_02d i = (let s = str_int i in if length s < 2 then CHR ''0'' # s else s)"

text \<open>
  A \<open>dict\<close> built by a comprehension \<open>{key(x): x for x in xs}\<close>: a later element
  replaces an earlier one with the same key.
\<close>

definition dict_by :: "('a \<Rightarrow> 'k) \<Rightarrow> 'a list \<Rightarrow> ('k \<rightharpoonup> 'a)" where
  "dict_by key xs = foldl (\<lambda>m x. m(key x \<mapsto> x)) Map.empty xs"

section \<open>pii\_types.py\<close>

datatype PIICategory =
  GOVERNMENT_ID | FINANCIAL | PERSONAL | CONTACT | MEDICAL | DIGITAL | VEHICLE
  | EMPLOYMENT | EDUCATION | MILITARY

record PIIType =
  name :: string
  code :: string
  category :: PIICategory
  description :: string
  regex_pattern :: "string option"
  presidio_entity :: "string option"
  requires_custom_recognizer :: bool

definition US_PII_TYPES :: "PIIType list" where
  "US_PII_TYPES =
     [\<lparr>name = ''Social Security Number'',
       code = ''SSN'',
       category = GOVERNMENT_ID,
       description = ''9-digit US Social Security Number'',
       regex_pattern = Some ([bslash] @ ''b(?!000|666|9'' @ [bslash] @ ''d{2})'' @ [bslash] @ ''d{3}[-'' @ [bslash] @ ''s]?(?!00)'' @ [bslash] @ ''d{2}[-'' @ [bslash] @ ''s]?(?!0000)'' @ [bslash] @ ''d{4}'' @ [bslash] @ ''b''),
       presidio_entity = Some (''US_SSN''),
       requires_custom_recognizer = False\<rparr>,
      \<lparr>name = ''Driver'' @ [squote] @ ''s License Number'',
       code = ''DRIVERS_LICENSE'',
       category = GOVERNMENT_ID,
       description = ''State-issued driver'' @ [squote] @ ''s license number'',
       regex_pattern = None,
       presidio_entity = Some (''US_DRIVER_LICENSE''),
       requires_custom_recognizer = False\<rparr>,
      \<lparr>name = ''Passport Number'',
       code = ''PASSPORT'',
       category = GOVERNMENT_ID,
       description = ''US Passport number'',
       regex_pattern = Some ([bslash] @ ''b[A-Z]?'' @ [bslash] @ ''d{8,9}'' @ [bslash] @ ''b''),
       presidio_entity = Some (''US_PASSPORT''),
       requires_custom_recognizer = True\<rparr>,
      \<lparr>name = ''State ID Number'',
       code = ''STATE_ID'',
       category = GOVERNMENT_ID,
       description = ''State-issued identification number'',
       regex_pattern = None,
       presidio_entity = None,
       requires_custom_recognizer = True\<rparr>,
      \<lparr>name = ''Individual Taxpayer Identification Number'',
       code = ''ITIN'',
       category = GOVERNMENT_ID,
       description = ''IRS-issued ITIN for tax processing'',
       regex_pattern = Some ([bslash] @ ''b9'' @ [bslash] @ ''d{2}[-'' @ [bslash] @ ''s]?[7-9]'' @ [bslash] @ ''d[-'' @ [bslash] @ ''s]?'' @ [bslash] @ ''d{4}'' @ [bslash] @ ''b''),
       presidio_entity = Some (''US_ITIN''),
       requires_custom_recognizer = False\<rparr>,
      \<lparr>name = ''Bank Account Number'',
       code = ''BANK_ACCOUNT'',
       category = FINANCIAL,
       description = ''Bank account number'',
       regex_pattern = Some ([bslash] @ ''b'' @ [bslash] @ ''d{8,17}'' @ [bslash] @ ''b''),
       presidio_entity = Some (''US_BANK_NUMBER''),
       requires_custom_recognizer = False\<rparr>,
      \<lparr>name = ''Credit Card Number'',
       code = ''CREDIT_CARD'',
       category = FINANCIAL,
       description = ''Credit card number (Visa, MasterCard, Amex, etc.)'',
       regex_pattern = None,
       presidio_entity = Some (''CREDIT_CARD''),
       requires_custom_recognizer = False\<rparr>,
      \<lparr>name = ''Debit Card Number'',
       code = ''DEBIT_CARD'',
       category = FINANCIAL,
       description = ''Debit card number'',
       regex_pattern = None,
       presidio_entity = Some (''CREDIT_CARD''),
       requires_custom_recognizer = False\<rparr>,
      \<lparr>name = ''Financial Account Number'',
       code = ''FINANCIAL_ACCOUNT'',
       category = FINANCIAL,
       description = ''Generic financial account number (brokerage, investment, etc.)'',
       regex_pattern = Some ([bslash] @ ''b[A-Z]{0,3}'' @ [bslash] @ ''d{6,12}'' @ [bslash] @ ''b''),
       presidio_entity = None,
       requires_custom_recognizer = True\<rparr>,
      \<lparr>name = ''Full Name'',
       code = ''PERSON_NAME'',
       category = PERSONAL,
       description = ''Full legal name (first, middle, last)'',
       regex_pattern = None,
       presidio_entity = Some (''PERSON''),
       requires_custom_recognizer = False\<rparr>,
      \<lparr>name = ''Date of Birth'',
       code = ''DATE_OF_BIRTH'',
       category = PERSONAL,
       description = ''Date of birth in various formats'',
       regex_pattern = None,
       presidio_entity = Some (''DATE_TIME''),
       requires_custom_recognizer = True\<rparr>,
      \<lparr>name = ''Place of Birth'',
       code = ''PLACE_OF_BIRTH'',
       category = PERSONAL,
       description = ''City/state/country of birth'',
       regex_pattern = None,
       presidio_entity = Some (''LOCATION''),
       requires_custom_recognizer = True\<rparr>,
      \<lparr>name = ''Mother'' @ [squote] @ ''s Maiden Name'',
       code = ''MOTHERS_MAIDEN_NAME'',
       category = PERSONAL,
       description = ''Mother'' @ [squote] @ ''s maiden name (security question)'',
       regex_pattern = None,
       presidio_entity = None,
       requires_custom_recognizer = True\<rparr>,
      \<lparr>name = ''Email Address'',
       code = ''EMAIL'',
       category = CONTACT,
       description = ''Email address'',
       regex_pattern = None,
       presidio_entity = Some (''EMAIL_ADDRESS''),
       requires_custom_recognizer = False\<rparr>,
      \<lparr>name = ''Phone Number'',
       code = ''PHONE'',
       category = CONTACT,
       description = ''Phone number (mobile, home, work)'',
       regex_pattern = None,
       presidio_entity = Some (''PHONE_NUMBER''),
       requires_custom_recognizer = False\<rparr>,
      \<lparr>name = ''Physical Address'',
       code = ''ADDRESS'',
       category = CONTACT,
       description = ''Street address, city, state, ZIP code'',
       regex_pattern = None,
       presidio_entity = Some (''LOCATION''),
       requires_custom_recognizer = True\<rparr>,
      \<lparr>name = ''IP Address'',
       code = ''IP_ADDRESS'',
       category = DIGITAL,
       description = ''IPv4 or IPv6 address'',
       regex_pattern = None,
       presidio_entity = Some (''IP_ADDRESS''),
       requires_custom_recognizer = False\<rparr>,
      \<lparr>name = ''Medical Record Number'',
       code = ''MEDICAL_RECORD'',
       category = MEDICAL,
       description = ''Hospital/clinic medical record number'',
       regex_pattern = Some ([bslash] @ ''b(?:MRN|MR#?|Medical Record)[:'' @ [bslash] @ ''s#]*'' @ [bslash] @ ''d{6,12}'' @ [bslash] @ ''b''),
       presidio_entity = Some (''MEDICAL_LICENSE''),
       requires_custom_recognizer = True\<rparr>,
      \<lparr>name = ''Health Insurance ID'',
       code = ''HEALTH_INSURANCE_ID'',
       category = MEDICAL,
       description = ''Health insurance policy/member ID'',
       regex_pattern = Some ([bslash] @ ''b[A-Z]{3}'' @ [bslash] @ ''d{9,12}'' @ [bslash] @ ''b''),
       presidio_entity = None,
       requires_custom_recognizer = True\<rparr>,
      \<lparr>name = ''Biometric Data'',
       code = ''BIOMETRIC'',
       category = PERSONAL,
       description = ''Fingerprint, facial recognition, retina scan data'',
       regex_pattern = None,
       presidio_entity = None,
       requires_custom_recognizer = True\<rparr>,
      \<lparr>name = ''Vehicle Registration Number'',
       code = ''VEHICLE_REGISTRATION'',
       category = VEHICLE,
       description = ''Vehicle registration/title number'',
       regex_pattern = Some ([bslash] @ ''b[A-Z0-9]{6,17}'' @ [bslash] @ ''b''),
       presidio_entity = None,
       requires_custom_recognizer = True\<rparr>,
      \<lparr>name = ''License Plate Number'',
       code = ''LICENSE_PLATE'',
       category = VEHICLE,
       description = ''Vehicle license plate number'',
       regex_pattern = Some ([bslash] @ ''b[A-Z0-9]{2,8}'' @ [bslash] @ ''b''),
       presidio_entity = None,
       requires_custom_recognizer = True\<rparr>,
      \<lparr>name = ''Digital Signature'',
       code = ''DIGITAL_SIGNATURE'',
       category = DIGITAL,
       description = ''Electronic/digital signature'',
       regex_pattern = None,
       presidio_entity = None,
       requires_custom_recognizer = True\<rparr>,
      \<lparr>name = ''Username/Password'',
       code = ''CREDENTIALS'',
       category = DIGITAL,
       description = ''Login credentials'',
       regex_pattern = Some (''(?:password|pwd|pass)[:'' @ [bslash] @ ''s]*[^'' @ [bslash] @ ''s]+''),
       presidio_entity = None,
       requires_custom_recognizer = True\<rparr>,
      \<lparr>name = ''Employee ID'',
       code = ''EMPLOYEE_ID'',
       category = EMPLOYMENT,
       description = ''Employer-assigned employee identification number'',
       regex_pattern = Some ([bslash] @ ''b(?:EMP|Employee)[:'' @ [bslash] @ ''s#]*'' @ [bslash] @ ''d{4,10}'' @ [bslash] @ ''b''),
       presidio_entity = None,
       requires_custom_recognizer = True\<rparr>,
      \<lparr>name = ''Student ID'',
       code = ''STUDENT_ID'',
       category = EDUCATION,
       description = ''School/university student identification number'',
       regex_pattern = Some ([bslash] @ ''b(?:Student|SID)[:'' @ [bslash] @ ''s#]*'' @ [bslash] @ ''d{5,12}'' @ [bslash] @ ''b''),
       presidio_entity = None,
       requires_custom_recognizer = True\<rparr>,
      \<lparr>name = ''Military ID'',
       code = ''MILITARY_ID'',
       category = MILITARY,
       description = ''Military service identification number (DoD ID)'',
       regex_pattern = Some ([bslash] @ ''b'' @ [bslash] @ ''d{10}'' @ [bslash] @ ''b''),
       presidio_entity = None,
       requires_custom_recognizer = True\<rparr>]"

definition PII_TYPE_MAP :: "string \<rightharpoonup> PIIType" where
  "PII_TYPE_MAP = dict_by code US_PII_TYPES"

section \<open>detector.py\<close>

text \<open>
  The fields of the classes keep their names behind a prefix for the class (\<open>m_\<close> for
  \<open>PIIMatch\<close>, \<open>rr_\<close> for a result of the engine, \<open>fk_\<close> for Faker, \<open>d_text\<close>
  for the text of a \<open>DetectionResult\<close>): several classes share field names.
\<close>

record PIIMatch =
  m_entity_type :: string
  m_text :: string
  m_start :: int
  m_end :: int
  m_score :: real
  m_pii_type :: "PIIType option"

text \<open>
  The dataclass constructor with its \<open>__post_init__\<close>: \<open>stop\<close> is the field
  \<open>end\<close>, and the last argument is the optional \<open>pii_type\<close>, \<open>None\<close> when the caller
  leaves it out.
\<close>

definition new_PIIMatch ::
  "string \<Rightarrow> string \<Rightarrow> int \<Rightarrow> int \<Rightarrow> real \<Rightarrow> PIIType option \<Rightarrow> PIIMatch" where
  "new_PIIMatch entity_type txt start stop score pii_type =
     \<lparr>m_entity_type = entity_type, m_text = txt, m_start = start, m_end = stop,
      m_score = score,
      m_pii_type = (if pii_type = None then PII_TYPE_MAP entity_type else pii_type)\<rparr>"

record DetectionResult =
  d_text :: string
  matches :: "PIIMatch list"
  total_pii_count :: int
  pii_types_found :: "string set"

definition has_pii :: "DetectionResult \<Rightarrow> bool" where
  "has_pii d = (total_pii_count d > 0)"

text \<open>
  The Presidio engine is an external library. The detector holds it in \<open>self.analyzer\<close>
  and calls \<open>analyze(text, language, entities, score_threshold)\<close>; the model takes the
  engine as that function, and a result of the engine as a record of the four fields read.
\<close>

record RecognizerResult =
  rr_entity_type :: string
  rr_start :: int
  rr_end :: int
  rr_score :: real

type_synonym analyzer_engine = "string \<Rightarrow> string \<Rightarrow> string list \<Rightarrow> real \<Rightarrow> RecognizerResult list"

record PIIDetector =
  language :: string
  score_threshold :: real
  analyzer :: "analyzer_engine option"

definition PRESIDIO_ENTITIES :: "string list" where
  "PRESIDIO_ENTITIES =
     [''PERSON'', ''EMAIL_ADDRESS'', ''PHONE_NUMBER'', ''US_SSN'', ''US_DRIVER_LICENSE'',
      ''CREDIT_CARD'', ''US_BANK_NUMBER'', ''US_ITIN'', ''IP_ADDRESS'', ''LOCATION'',
      ''DATE_TIME'', ''NRP'', ''MEDICAL_LICENSE'', ''URL'', ''IBAN_CODE'']"

definition CUSTOM_ENTITIES :: "string list" where
  "CUSTOM_ENTITIES =
     [''US_PASSPORT'', ''STATE_ID'', ''MEDICAL_RECORD'', ''HEALTH_INSURANCE_ID'',
      ''EMPLOYEE_ID'', ''STUDENT_ID'', ''MILITARY_ID'', ''VEHICLE_REGISTRATION'',
      ''LICENSE_PLATE'', ''CREDENTIALS'', ''US_ADDRESS'', ''DATE_OF_BIRTH'',
      ''MOTHERS_MAIDEN_NAME'', ''FINANCIAL_ACCOUNT'']"

text \<open>
  \<open>PIIDetector.__init__\<close>: the third argument is the engine that
  \<open>_initialize_analyzer\<close> builds, or \<open>None\<close> under \<open>load_spacy_model=False\<close>.
\<close>

definition new_PIIDetector :: "string \<Rightarrow> real \<Rightarrow> analyzer_engine option \<Rightarrow> PIIDetector" where
  "new_PIIDetector lang threshold engine =
     \<lparr>language = lang, score_threshold = threshold, analyzer = engine\<rparr>"

definition match_of_result :: "string \<Rightarrow> RecognizerResult \<Rightarrow> PIIMatch" where
  "match_of_result txt r =
     new_PIIMatch (rr_entity_type r) (slice txt (rr_start r) (rr_end r))
       (rr_start r) (rr_end r) (rr_score r) None"

definition detect :: "PIIDetector \<Rightarrow> string \<Rightarrow> py_error + DetectionResult" where
  "detect self txt =
     (if txt = [] \<or> strip txt = [] then
        Inr \<lparr>d_text = txt, matches = [], total_pii_count = 0, pii_types_found = {}\<rparr>
      else case analyzer self of
        None \<Rightarrow> Inl (RuntimeError ''Analyzer not initialized. Set load_spacy_model=True.'')
      | Some engine \<Rightarrow>
          (let all_entities = PRESIDIO_ENTITIES @ CUSTOM_ENTITIES;
               results = engine txt (language self) all_entities (score_threshold self);
               ms = sorted_by m_start (map (match_of_result txt) results)
           in Inr \<lparr>d_text = txt, matches = ms, total_pii_count = int (length ms),
                   pii_types_found = set (map rr_entity_type results)\<rparr>))"

section \<open>anonymizer.py\<close>

text \<open>
  Faker is an external library whose methods draw from a random state. The model takes
  the methods the anonymizer calls as the fields of a record; each one maps the random
  state \<open>'g\<close> to the value drawn and the next state.
  \<open>fk_date_of_birth_strftime min max fmt\<close> stands for
  \<open>date_of_birth(minimum_age=min, maximum_age=max).strftime(fmt)\<close>, and
  \<open>fk_random_number d fix\<close> for \<open>random_number(digits=d, fix_len=fix)\<close>.
\<close>

record 'g Faker =
  fk_name :: "'g \<Rightarrow> string \<times> 'g"
  fk_email :: "'g \<Rightarrow> string \<times> 'g"
  fk_phone_number :: "'g \<Rightarrow> string \<times> 'g"
  fk_ssn :: "'g \<Rightarrow> string \<times> 'g"
  fk_credit_card_number :: "'g \<Rightarrow> string \<times> 'g"
  fk_bban :: "'g \<Rightarrow> string \<times> 'g"
  fk_ipv4 :: "'g \<Rightarrow> string \<times> 'g"
  fk_city :: "'g \<Rightarrow> string \<times> 'g"
  fk_state_abbr :: "'g \<Rightarrow> string \<times> 'g"
  fk_date :: "'g \<Rightarrow> string \<times> 'g"
  fk_url :: "'g \<Rightarrow> string \<times> 'g"
  fk_license_plate :: "'g \<Rightarrow> string \<times> 'g"
  fk_address :: "'g \<Rightarrow> string \<times> 'g"
  fk_date_of_birth_strftime :: "int \<Rightarrow> int \<Rightarrow> string \<Rightarrow> 'g \<Rightarrow> string \<times> 'g"
  fk_last_name :: "'g \<Rightarrow> string \<times> 'g"
  fk_country :: "'g \<Rightarrow> string \<times> 'g"
  fk_iban :: "'g \<Rightarrow> string \<times> 'g"
  fk_random_uppercase_letter :: "'g \<Rightarrow> string \<times> 'g"
  fk_random_number :: "nat \<Rightarrow> bool \<Rightarrow> 'g \<Rightarrow> int \<times> 'g"
  fk_random_int :: "int \<Rightarrow> int \<Rightarrow> 'g \<Rightarrow> int \<times> 'g"
  fk_random_element :: "string \<Rightarrow> 'g \<Rightarrow> string \<times> 'g"

text \<open>A drawn value put through a pure function, and \<open>"".join(gen() for _ in range(n))\<close>.\<close>

definition drawn :: "('a \<Rightarrow> string) \<Rightarrow> ('g \<Rightarrow> 'a \<times> 'g) \<Rightarrow> 'g \<Rightarrow> string \<times> 'g" where
  "drawn f gen g = (case gen g of (x, g') \<Rightarrow> (f x, g'))"

fun join_range :: "nat \<Rightarrow> ('g \<Rightarrow> string \<times> 'g) \<Rightarrow> 'g \<Rightarrow> string \<times> 'g" where
  "join_range 0 gen g = ([], g)"
| "join_range (Suc n) gen g =
     (case gen g of (s, g1) \<Rightarrow> (case join_range n gen g1 of (rest, g2) \<Rightarrow> (s @ rest, g2)))"

definition generate_drivers_license :: "'g Faker \<Rightarrow> 'g \<Rightarrow> string \<times> 'g" where
  "generate_drivers_license fk g =
     (case fk_random_uppercase_letter fk g of (pre, g1) \<Rightarrow>
      case fk_random_number fk 7 True g1 of (number, g2) \<Rightarrow>
        (pre @ str_int number, g2))"

definition generate_itin :: "'g Faker \<Rightarrow> 'g \<Rightarrow> string \<times> 'g" where
  "generate_itin fk g =
     (let area = 9 in
      case fk_random_int fk 70 99 g of (grp, g1) \<Rightarrow>
      case fk_random_number fk 4 True g1 of (serial, g2) \<Rightarrow>
        (str_int area @ format_02d grp @ ''-'' @ str_int serial, g2))"

definition generate_passport_number :: "'g Faker \<Rightarrow> 'g \<Rightarrow> string \<times> 'g" where
  "generate_passport_number fk g = drawn str_int (fk_random_number fk 9 True) g"

definition generate_state_id :: "'g Faker \<Rightarrow> 'g \<Rightarrow> string \<times> 'g" where
  "generate_state_id fk g =
     (case fk_random_uppercase_letter fk g of (pre, g1) \<Rightarrow>
      case fk_random_number fk 8 True g1 of (number, g2) \<Rightarrow>
        (pre @ str_int number, g2))"

definition generate_health_insurance_id :: "'g Faker \<Rightarrow> 'g \<Rightarrow> string \<times> 'g" where
  "generate_health_insurance_id fk g =
     (case join_range 3 (fk_random_uppercase_letter fk) g of (pre, g1) \<Rightarrow>
      case fk_random_number fk 10 True g1 of (number, g2) \<Rightarrow>
        (pre @ str_int number, g2))"

definition generate_vin :: "'g Faker \<Rightarrow> 'g \<Rightarrow> string \<times> 'g" where
  "generate_vin fk g =
     (let chars = ''ABCDEFGHJKLMNPRSTUVWXYZ0123456789''
      in join_range 17 (fk_random_element fk chars) g)"

text \<open>
  The dictionary of generators, in the order of the source; its keys are distinct, so the
  association list read from the left is the dictionary.
\<close>

definition build_replacement_generators ::
  "'g Faker \<Rightarrow> (string \<times> ('g \<Rightarrow> string \<times> 'g)) list" where
  "build_replacement_generators fk =
     [(''PERSON'', fk_name fk),
      (''EMAIL_ADDRESS'', fk_email fk),
      (''PHONE_NUMBER'', fk_phone_number fk),
      (''US_SSN'', fk_ssn fk),
      (''US_DRIVER_LICENSE'', generate_drivers_license fk),
      (''CREDIT_CARD'', fk_credit_card_number fk),
      (''US_BANK_NUMBER'', fk_bban fk),
      (''US_ITIN'', generate_itin fk),
      (''IP_ADDRESS'', fk_ipv4 fk),
      (''LOCATION'',
         (\<lambda>g. case fk_city fk g of (city, g1) \<Rightarrow>
               case fk_state_abbr fk g1 of (state, g2) \<Rightarrow> (city @ '', '' @ state, g2))),
      (''DATE_TIME'', fk_date fk),
      (''URL'', fk_url fk),
      (''US_PASSPORT'', generate_passport_number fk),
      (''STATE_ID'', generate_state_id fk),
      (''MEDICAL_RECORD'', drawn (\<lambda>n. ''MRN'' @ str_int n) (fk_random_number fk 8 True)),
      (''HEALTH_INSURANCE_ID'', generate_health_insurance_id fk),
      (''EMPLOYEE_ID'', drawn (\<lambda>n. ''EMP'' @ str_int n) (fk_random_number fk 6 True)),
      (''STUDENT_ID'', drawn (\<lambda>n. ''STU'' @ str_int n) (fk_random_number fk 8 True)),
      (''MILITARY_ID'', drawn str_int (fk_random_number fk 10 True)),
      (''VEHICLE_REGISTRATION'', generate_vin fk),
      (''LICENSE_PLATE'', fk_license_plate fk),
      (''CREDENTIALS'', (\<lambda>g. (''[REDACTED_CREDENTIALS]'', g))),
      (''US_ADDRESS'', drawn (\<lambda>a. str_replace a [newline] '', '') (fk_address fk)),
      (''DATE_OF_BIRTH'', fk_date_of_birth_strftime fk 18 90 ''%m/%d/%Y''),
      (''MOTHERS_MAIDEN_NAME'', fk_last_name fk),
      (''FINANCIAL_ACCOUNT'', fk_bban fk),
      (''NRP'', fk_country fk),
      (''MEDICAL_LICENSE'', drawn (\<lambda>n. ''ML'' @ str_int n) (fk_random_number fk 8 True)),
      (''IBAN_CODE'', fk_iban fk)]"

definition generate_replacement :: "'g Faker \<Rightarrow> string \<Rightarrow> 'g \<Rightarrow> string \<times> 'g" where
  "generate_replacement fk entity_type g =
     (case map_of (build_replacement_generators fk) entity_type of
        Some generator \<Rightarrow> generator g
      | None \<Rightarrow> (''[REDACTED_'' @ entity_type @ '']'', g))"

text \<open>
  One entry of \<open>replacements\<close>; \<open>position\<close> is the pair of the dictionary's
  \<open>start\<close> and \<open>end\<close>.
\<close>

record replacement_info =
  entity_type :: string
  original_value :: string
  replacement_value :: string
  position :: "int \<times> int"
  confidence_score :: real

record AnonymizationResult =
  original_text :: string
  anonymized_text :: string
  replacements :: "replacement_info list"
  total_replacements :: int

text \<open>The body of the loop of \<open>anonymize\<close> over \<open>sorted_matches\<close>.\<close>

fun anonymize_loop ::
  "'g Faker \<Rightarrow> PIIMatch list \<Rightarrow> string \<times> replacement_info list \<times> 'g
     \<Rightarrow> string \<times> replacement_info list \<times> 'g" where
  "anonymize_loop fk [] state = state"
| "anonymize_loop fk (m # ms) (anonymized, infos, g) =
     (case generate_replacement fk (m_entity_type m) g of (fake_value, g') \<Rightarrow>
        anonymize_loop fk ms
          (slice_to anonymized (m_start m) @ fake_value @ slice_from anonymized (m_end m),
           infos @ [\<lparr>entity_type = m_entity_type m, original_value = m_text m,
                      replacement_value = fake_value, position = (m_start m, m_end m),
                      confidence_score = m_score m\<rparr>],
           g'))"

definition anonymize :: "'g Faker \<Rightarrow> DetectionResult \<Rightarrow> 'g \<Rightarrow> AnonymizationResult \<times> 'g" where
  "anonymize fk detection_result g =
     (if \<not> has_pii detection_result then
        (\<lparr>original_text = d_text detection_result,
          anonymized_text = d_text detection_result,
          replacements = [], total_replacements = 0\<rparr>, g)
      else
        (let sorted_matches = sorted_by_reverse m_start (matches detection_result)
         in case anonymize_loop fk sorted_matches (d_text detection_result, [], g) of
              (anonymized, infos, g') \<Rightarrow>
                (\<lparr>original_text = d_text detection_result,
                  anonymized_text = anonymized,
                  replacements = rev infos,
                  total_replacements = int (length (rev infos))\<rparr>, g')))"

text \<open>The loop of \<open>anonymize_text\<close>.\<close>

fun anonymize_text_loop :: "'g Faker \<Rightarrow> PIIMatch list \<Rightarrow> string \<times> 'g \<Rightarrow> string \<times> 'g" where
  "anonymize_text_loop fk [] state = state"
| "anonymize_text_loop fk (m # ms) (result, g) =
     (case generate_replacement fk (m_entity_type m) g of (fake_value, g') \<Rightarrow>
        anonymize_text_loop fk ms
          (slice_to result (m_start m) @ fake_value @ slice_from result (m_end m), g'))"

definition anonymize_text :: "'g Faker \<Rightarrow> string \<Rightarrow> PIIMatch list \<Rightarrow> 'g \<Rightarrow> string \<times> 'g" where
  "anonymize_text fk txt ms g =
     (if ms = [] then (txt, g)
      else anonymize_text_loop fk (sorted_by_reverse m_start ms) (txt, g))"

text \<open>
  The mapping is a \<open>dict\<close> from original value to replacement, kept as an association
  list in insertion order; a key that is new goes to the end.
\<close>

fun replacement_mapping_loop ::
  "'g Faker \<Rightarrow> PIIMatch list \<Rightarrow> (string \<times> string) list \<times> 'g \<Rightarrow> (string \<times> string) list \<times> 'g" where
  "replacement_mapping_loop fk [] state = state"
| "replacement_mapping_loop fk (m # ms) (mapping, g) =
     (if m_text m \<notin> fst ` set mapping then
        (case generate_replacement fk (m_entity_type m) g of (fake_value, g') \<Rightarrow>
           replacement_mapping_loop fk ms (mapping @ [(m_text m, fake_value)], g'))
      else replacement_mapping_loop fk ms (mapping, g))"

definition get_replacement_mapping ::
  "'g Faker \<Rightarrow> DetectionResult \<Rightarrow> 'g \<Rightarrow> (string \<times> string) list \<times> 'g" where
  "get_replacement_mapping fk detection_result g =
     replacement_mapping_loop fk (matches detection_result) ([], g)"

definition anonymize_with_mapping :: "string \<Rightarrow> (string \<times> string) list \<Rightarrow> string" where
  "anonymize_with_mapping txt mapping =
     foldl (\<lambda>result (original, replacement). str_replace result original replacement)
       txt (sorted_by_reverse (\<lambda>x. length (fst x)) mapping)"

section \<open>Notions of the specification\<close>

text \<open>The span of a match: its \<open>start\<close> and \<open>end\<close> offsets, the end exclusive.\<close>

definition span_of :: "PIIMatch \<Rightarrow> int \<times> int" where
  "span_of m = (m_start m, m_end m)"

text \<open>Two half-open spans do not intersect: the larger start is not below the smaller end.\<close>

definition spans_disjoint :: "int \<times> int \<Rightarrow> int \<times> int \<Rightarrow> bool" where
  "spans_disjoint a b = (min (snd a) (snd b) \<le> max (fst a) (fst b))"

text \<open>Every two entries of a list of spans, at different places of the list, are disjoint.\<close>

fun non_overlapping :: "(int \<times> int) list \<Rightarrow> bool" where
  "non_overlapping [] = True"
| "non_overlapping (a # as) = (list_all (spans_disjoint a) as \<and> non_overlapping as)"

text \<open>A span of a match lies in the text and is not empty (the specification knows no zero-width match).\<close>

definition in_bounds :: "string \<Rightarrow> int \<times> int \<Rightarrow> bool" where
  "in_bounds t a = (0 \<le> fst a \<and> fst a < snd a \<and> snd a \<le> int (length t))"

text \<open>What a ledger entry records of its match, and the same fields read from the match.\<close>

definition match_key :: "PIIMatch \<Rightarrow> string \<times> string \<times> (int \<times> int) \<times> real" where
  "match_key m = (m_entity_type m, m_text m, (m_start m, m_end m), m_score m)"

definition info_key :: "replacement_info \<Rightarrow> string \<times> string \<times> (int \<times> int) \<times> real" where
  "info_key r = (entity_type r, original_value r, position r, confidence_score r)"

text \<open>One step of the rewrite, read from a ledger entry: \<open>text[:start] + replacement + text[end:]\<close>.\<close>

definition apply_replacement :: "string \<Rightarrow> replacement_info \<Rightarrow> string" where
  "apply_replacement t r =
     slice_to t (fst (position r)) @ replacement_value r @ slice_from t (snd (position r))"

text \<open>
  The length difference of one replacement, and the cumulative difference of the
  replacements of a ledger that start strictly before an offset.
\<close>

definition delta :: "replacement_info \<Rightarrow> int" where
  "delta r = int (length (replacement_value r)) - (snd (position r) - fst (position r))"

definition shift_before :: "replacement_info list \<Rightarrow> int \<Rightarrow> int" where
  "shift_before ledger p = sum_list (map delta (filter (\<lambda>r. fst (position r) < p) ledger))"

text \<open>
  The text put together from scratch, left to right from offset \<open>c\<close>: the original
  characters between the spans of a ledger in document order, each span replaced.
\<close>

fun rebuild :: "string \<Rightarrow> nat \<Rightarrow> replacement_info list \<Rightarrow> string" where
  "rebuild t c [] = drop c t"
| "rebuild t c (r # rs) =
     take (nat (fst (position r)) - c) (drop c t) @ replacement_value r
       @ rebuild t (nat (snd (position r))) rs"

text \<open>The spans of a ledger lie in the text from offset \<open>c\<close> on, each non-empty and starting where the one before has ended or later.\<close>

fun ordered_spans :: "string \<Rightarrow> int \<Rightarrow> replacement_info list \<Rightarrow> bool" where
  "ordered_spans t c [] = (0 \<le> c \<and> c \<le> int (length t))"
| "ordered_spans t c (r # rs) =
     (0 \<le> c \<and> c \<le> fst (position r) \<and> fst (position r) < snd (position r)
      \<and> ordered_spans t (snd (position r)) rs)"

text \<open>The span of a result of the analyzer engine.\<close>

definition result_span :: "RecognizerResult \<Rightarrow> int \<times> int" where
  "result_span r = (rr_start r, rr_end r)"

text \<open>
  Modelled from the spec: the analyzer engine (Presidio, an external library that is not
  part of the repository) returns the candidates it recognises in a text except those
  whose score is strictly below \<open>score_threshold\<close>, the "minimum confidence score for PII
  detection" of the docstring of \<open>PIIDetector\<close>; nothing else in it reads the threshold.
  The candidates it recognises are a parameter.
\<close>

definition threshold_engine ::
  "(string \<Rightarrow> string \<Rightarrow> string list \<Rightarrow> RecognizerResult list) \<Rightarrow> analyzer_engine" where
  "threshold_engine candidates txt lang entities threshold =
     filter (\<lambda>r. threshold \<le> rr_score r) (candidates txt lang entities)"

text \<open>
  A text laid out as pieces: \<open>Inl\<close> a stretch of other text, \<open>Inr\<close> a marked
  occurrence of a key. \<open>plain\<close> is the text itself, \<open>substituted\<close> the text with every
  marked occurrence of a key of the mapping replaced by the value of that key.
\<close>

type_synonym layout = "(string + string) list"

definition piece :: "string + string \<Rightarrow> string" where
  "piece i = (case i of Inl s \<Rightarrow> s | Inr k \<Rightarrow> k)"

definition plain :: "layout \<Rightarrow> string" where
  "plain items = concat (map piece items)"

definition substituted :: "(string \<times> string) list \<Rightarrow> layout \<Rightarrow> string" where
  "substituted mapping items =
     concat (map (\<lambda>i. case i of Inl s \<Rightarrow> s
                    | Inr k \<Rightarrow> (case map_of mapping k of Some v \<Rightarrow> v | None \<Rightarrow> k)) items)"

text \<open>
  The layout after the turn of a key, its marked occurrences now text; and the stretches
  of text between the marked occurrences of a key.
\<close>

definition subst_key :: "string \<Rightarrow> string \<Rightarrow> layout \<Rightarrow> layout" where
  "subst_key k v items = map (\<lambda>i. if i = Inr k then Inl v else i) items"

fun chunks_from :: "string \<Rightarrow> string \<Rightarrow> layout \<Rightarrow> string list" where
  "chunks_from k acc [] = [acc]"
| "chunks_from k acc (i # items) =
     (if i = Inr k then acc # chunks_from k [] items
      else chunks_from k (acc @ piece i) items)"

definition chunks :: "string \<Rightarrow> layout \<Rightarrow> string list" where
  "chunks k items = chunks_from k [] items"

text \<open>
  A key that is not empty occurs in the text of a layout only at the pieces marked for it:
  no occurrence starts in a stretch between them or after the last. A run over the entries
  is clean when this holds for each key at its turn.
\<close>

definition only_marked :: "string \<Rightarrow> layout \<Rightarrow> bool" where
  "only_marked k items =
     (k \<noteq> [] \<and> list_all (\<lambda>c. \<not> sublist k (c @ butlast k)) (butlast (chunks k items))
      \<and> \<not> sublist k (last (chunks k items)))"

fun clean_run :: "(string \<times> string) list \<Rightarrow> layout \<Rightarrow> bool" where
  "clean_run [] items = True"
| "clean_run (e # es) items =
     (only_marked (fst e) items \<and> clean_run es (subst_key (fst e) (snd e) items))"

text \<open>
  An ordering of the entries of a mapping by descending length of the keys that keeps the
  order of the mapping among keys of one length.
\<close>

definition longest_first :: "(string \<times> string) list \<Rightarrow> (string \<times> string) list \<Rightarrow> bool" where
  "longest_first mapping es =
     (mset es = mset mapping
      \<and> sorted (rev (map (\<lambda>e. length (fst e)) es))
      \<and> list_all (\<lambda>e. filter (\<lambda>x. length (fst x) = length (fst e)) es
                        = filter (\<lambda>x. length (fst x) = length (fst e)) mapping) mapping)"

section \<open>A fixed Faker for concrete runs\<close>

text \<open>
  A deterministic stand-in for a seeded Faker: every method returns a fixed value and
  counts the draw in the state.
\<close>

definition test_faker :: "nat Faker" where
  "test_faker =
     \<lparr>fk_name = (\<lambda>g. (''Jane Smith'', Suc g)),
      fk_email = (\<lambda>g. (''jane@example.org'', Suc g)),
      fk_phone_number = (\<lambda>g. (''555-0100'', Suc g)),
      fk_ssn = (\<lambda>g. (''078-05-1120'', Suc g)),
      fk_credit_card_number = (\<lambda>g. (''4111111111111111'', Suc g)),
      fk_bban = (\<lambda>g. (''ABCD12345678'', Suc g)),
      fk_ipv4 = (\<lambda>g. (''192.0.2.1'', Suc g)),
      fk_city = (\<lambda>g. (''Springfield'', Suc g)),
      fk_state_abbr = (\<lambda>g. (''IL'', Suc g)),
      fk_date = (\<lambda>g. (''2001-02-03'', Suc g)),
      fk_url = (\<lambda>g. (''http://example.org/'', Suc g)),
      fk_license_plate = (\<lambda>g. (''ABC 123'', Suc g)),
      fk_address = (\<lambda>g. (''1 Main St'' @ [newline] @ ''Springfield, IL 62701'', Suc g)),
      fk_date_of_birth_strftime = (\<lambda>lo hi fmt g. (''01/02/1980'', Suc g)),
      fk_last_name = (\<lambda>g. (''Smith'', Suc g)),
      fk_country = (\<lambda>g. (''Iceland'', Suc g)),
      fk_iban = (\<lambda>g. (''GB82WEST12345698765432'', Suc g)),
      fk_random_uppercase_letter = (\<lambda>g. (''Q'', Suc g)),
      fk_random_number = (\<lambda>digits fix_len g. (10 ^ (digits - 1), Suc g)),
      fk_random_int = (\<lambda>lo hi g. (lo, Suc g)),
      fk_random_element = (\<lambda>elements g. (take 1 elements, Suc g))\<rparr>"

text \<open>
  The detection result and the match list built by hand in the tests of the anonymizer
  (\<open>sample_detection_result\<close> and \<open>test_anonymize_text_method\<close>).
\<close>

definition sample_matches :: "PIIMatch list" where
  "sample_matches =
     [new_PIIMatch ''PERSON'' ''John Doe'' 0 8 0.85 None,
      new_PIIMatch ''US_SSN'' ''123-45-6789'' 18 29 0.95 None,
      new_PIIMatch ''EMAIL_ADDRESS'' ''john@example.com'' 44 60 0.99 None]"

definition sample_detection_result :: DetectionResult where
  "sample_detection_result =
     \<lparr>d_text = ''John Doe'' @ [squote]
               @ ''s SSN is 123-45-6789 and email is john@example.com'',
      matches = sample_matches,
      total_pii_count = 3,
      pii_types_found = {''PERSON'', ''US_SSN'', ''EMAIL_ADDRESS''}\<rparr>"

definition contact_matches :: "PIIMatch list" where
  "contact_matches =
     [new_PIIMatch ''PERSON'' ''John'' 8 12 0.8 None,
      new_PIIMatch ''EMAIL_ADDRESS'' ''john@test.com'' 16 29 0.95 None]"

definition contact_detection_result :: DetectionResult where
  "contact_detection_result =
     \<lparr>d_text = ''Contact John at john@test.com'',
      matches = contact_matches,
      total_pii_count = 2,
      pii_types_found = {''PERSON'', ''EMAIL_ADDRESS''}\<rparr>"

text \<open>
  The candidates of the second concrete scenario of the specification, a passport number
  that also reads as a state ID, and a detection result that holds both.
\<close>

definition passport_candidates :: "RecognizerResult list" where
  "passport_candidates =
     [\<lparr>rr_entity_type = ''US_PASSPORT'', rr_start = 10, rr_end = 19, rr_score = 0.3\<rparr>,
      \<lparr>rr_entity_type = ''STATE_ID'', rr_start = 10, rr_end = 18, rr_score = 0.2\<rparr>]"

definition passport_detection_result :: DetectionResult where
  "passport_detection_result =
     \<lparr>d_text = ''Passport: 123456789 issued'',
      matches =
        [new_PIIMatch ''US_PASSPORT'' ''123456789'' 10 19 0.3 None,
         new_PIIMatch ''STATE_ID'' ''12345678'' 10 18 0.2 None],
      total_pii_count = 2,
      pii_types_found = {''US_PASSPORT'', ''STATE_ID''}\<rparr>"

text \<open>The candidates an engine recognises in the text of \<open>test_anonymize_text_method\<close>.\<close>

definition contact_candidates :: "RecognizerResult list" where
  "contact_candidates =
     [\<lparr>rr_entity_type = ''PERSON'', rr_start = 8, rr_end = 12, rr_score = 0.8\<rparr>,
      \<lparr>rr_entity_type = ''EMAIL_ADDRESS'', rr_start = 16, rr_end = 29, rr_score = 0.95\<rparr>]"

text \<open>A detection result in which the same original value is matched twice.\<close>

definition repeated_detection_result :: DetectionResult where
  "repeated_detection_result =
     \<lparr>d_text = ''John Doe and John Doe again'',
      matches =
        [new_PIIMatch ''PERSON'' ''John Doe'' 0 8 0.85 None,
         new_PIIMatch ''PERSON'' ''John Doe'' 13 21 0.85 None],
      total_pii_count = 2,
      pii_types_found = {''PERSON''}\<rparr>"

text \<open>Two matches that share no offset, the first of zero width.\<close>

definition zero_width_matches :: "PIIMatch list" where
  "zero_width_matches =
     [new_PIIMatch ''X'' '''' 5 5 0.9 None,
      new_PIIMatch ''Y'' ''fgh'' 5 8 0.9 None]"

definition zero_width_detection_result :: DetectionResult where
  "zero_width_detection_result =
     \<lparr>d_text = ''abcdefghij'',
      matches = zero_width_matches,
      total_pii_count = 2,
      pii_types_found = {''X'', ''Y''}\<rparr>"

text \<open>
  A Faker that draws two names in turn, and detection results whose matched texts are
  what the text holds at their spans.
\<close>

definition names_faker :: "nat Faker" where
  "names_faker =
     test_faker\<lparr>fk_name := (\<lambda>g. ([''Bob Brown'', ''Jane Smith''] ! (g mod 2), Suc g))\<rparr>"

definition smith_detection_result :: DetectionResult where
  "smith_detection_result =
     \<lparr>d_text = ''Smith met John Doe'',
      matches =
        [new_PIIMatch ''PERSON'' ''Smith'' 0 5 0.85 None,
         new_PIIMatch ''PERSON'' ''John Doe'' 10 18 0.85 None],
      total_pii_count = 2,
      pii_types_found = {''PERSON''}\<rparr>"

definition junior_detection_result :: DetectionResult where
  "junior_detection_result =
     \<lparr>d_text = ''Smith Jr met Jonathan Doe Jr and Jonathan Doe'',
      matches =
        [new_PIIMatch ''PERSON'' ''Smith Jr'' 0 8 0.85 None,
         new_PIIMatch ''PERSON'' ''Jonathan Doe'' 13 25 0.85 None,
         new_PIIMatch ''PERSON'' ''Jonathan Doe'' 33 45 0.85 None],
      total_pii_count = 3,
      pii_types_found = {''PERSON''}\<rparr>"

definition ssn_detection_result :: DetectionResult where
  "ssn_detection_result =
     \<lparr>d_text = ''John Doe has SSN 123-45-6789'',
      matches =
        [new_PIIMatch ''PERSON'' ''John Doe'' 0 8 0.85 None,
         new_PIIMatch ''US_SSN'' ''123-45-6789'' 17 28 0.95 None],
      total_pii_count = 2,
      pii_types_found = {''PERSON'', ''US_SSN''}\<rparr>"

section \<open>Replacement generation\<close>

lemma distinct_generator_keys: "distinct (map fst (build_replacement_generators fk))"
  by (simp add: build_replacement_generators_def)

text \<open>
  C7. For an entity type that is not a key of the generator dictionary,
  \<open>_generate_replacement\<close> returns the placeholder made of \<open>[REDACTED_\<close>, the entity
  type and \<open>]\<close>; it draws nothing from the random state and does not fail.
\<close>

theorem generate_replacement_unknown:
  "et \<notin> fst ` set (build_replacement_generators fk) \<Longrightarrow>
   generate_replacement fk et g = (''[REDACTED_'' @ et @ '']'', g)"
  by (simp add: generate_replacement_def map_of_eq_None_iff [THEN iffD2])

theorem generate_replacement_unknown_witness:
  "''UNKNOWN_TYPE'' \<notin> fst ` set (build_replacement_generators test_faker) \<and>
   generate_replacement test_faker ''UNKNOWN_TYPE'' 42 = (''[REDACTED_UNKNOWN_TYPE]'', 42)"
proof -
  have h: "''UNKNOWN_TYPE'' \<notin> fst ` set (build_replacement_generators test_faker)"
    by (simp add: build_replacement_generators_def)
  show ?thesis
    using h generate_replacement_unknown [OF h, of 42] by simp
qed

section \<open>The no-op path of the anonymizer\<close>

text \<open>
  C5. On a detection result whose match list is empty, \<open>anonymize\<close> returns the text
  unchanged with an empty ledger and zero replacements, whatever the other fields hold;
  \<open>anonymize_text\<close> on an empty match list returns the text. Neither draws a value nor
  raises.
\<close>

theorem anonymize_empty_matches:
  "anonymize fk \<lparr>d_text = txt, matches = [], total_pii_count = n, pii_types_found = found\<rparr> g =
     (\<lparr>original_text = txt, anonymized_text = txt, replacements = [],
       total_replacements = 0\<rparr>, g)
   \<and> anonymize_text fk txt [] g = (txt, g)"
  by (simp add: anonymize_def anonymize_text_def sorted_by_reverse_def)

section \<open>Detection on blank text\<close>

lemma strip_blank: "\<forall>c\<in>set s. is_space c \<Longrightarrow> strip s = []"
proof -
  assume "\<forall>c\<in>set s. is_space c"
  then have d: "dropWhile is_space s = []"
    by (simp add: dropWhile_eq_Nil_conv)
  show ?thesis
    unfolding strip_def d by simp
qed

text \<open>
  C8. On a text that is empty or holds only whitespace, \<open>detect\<close> returns a result with
  no match, a count of zero and no PII type found, and raises nothing, also when no
  analyzer is installed.
\<close>

theorem detect_blank_text:
  "\<forall>c\<in>set txt. is_space c \<Longrightarrow>
   detect self txt =
     Inr \<lparr>d_text = txt, matches = [], total_pii_count = 0, pii_types_found = {}\<rparr>"
  by (simp add: detect_def strip_blank)

theorem detect_blank_text_witness:
  "list_all is_space (''   '' @ [newline, CHR 0x09] @ ''  '') \<and>
   detect (new_PIIDetector ''en'' 0.5 None) (''   '' @ [newline, CHR 0x09] @ ''  '') =
     Inr \<lparr>d_text = ''   '' @ [newline, CHR 0x09] @ ''  '', matches = [],
          total_pii_count = 0, pii_types_found = {}\<rparr>"
proof -
  have h: "\<forall>c\<in>set (''   '' @ [newline, CHR 0x09] @ ''  ''). is_space c"
    by (simp add: is_space_def newline_def)
  then have "list_all is_space (''   '' @ [newline, CHR 0x09] @ ''  '')"
    unfolding list_all_iff .
  then show ?thesis
    using detect_blank_text [OF h] by blast
qed

section \<open>The PII type of a match\<close>

lemma foldl_upd_notin:
  "k \<notin> key ` set xs \<Longrightarrow> foldl (\<lambda>m x. m(key x \<mapsto> x)) m0 xs k = m0 k"
  by (induction xs arbitrary: m0) auto

lemma foldl_upd_in:
  "distinct (map key xs) \<Longrightarrow> x \<in> set xs \<Longrightarrow>
   foldl (\<lambda>m x. m(key x \<mapsto> x)) m0 xs (key x) = Some x"
proof (induction xs arbitrary: m0)
  case Nil
  then show ?case by simp
next
  case (Cons y ys)
  show ?case
  proof (cases "x = y")
    case True
    with Cons.prems have "key y \<notin> key ` set ys" by auto
    then have "foldl (\<lambda>m x. m(key x \<mapsto> x)) (m0(key y \<mapsto> y)) ys (key y)
                 = (m0(key y \<mapsto> y)) (key y)"
      by (rule foldl_upd_notin)
    also have "\<dots> = Some y"
      by simp
    finally show ?thesis
      using True by (simp del: fun_upd_apply)
  next
    case False
    with Cons show ?thesis by auto
  qed
qed

lemma dict_by_None: "k \<notin> key ` set xs \<Longrightarrow> dict_by key xs k = None"
  by (simp add: dict_by_def foldl_upd_notin)

lemma dict_by_Some:
  "distinct (map key xs) \<Longrightarrow> x \<in> set xs \<Longrightarrow> dict_by key xs (key x) = Some x"
  by (simp add: dict_by_def foldl_upd_in)

lemma codes_US_PII_TYPES:
  "map code US_PII_TYPES =
     [''SSN'', ''DRIVERS_LICENSE'', ''PASSPORT'', ''STATE_ID'', ''ITIN'',
      ''BANK_ACCOUNT'', ''CREDIT_CARD'', ''DEBIT_CARD'', ''FINANCIAL_ACCOUNT'',
      ''PERSON_NAME'', ''DATE_OF_BIRTH'', ''PLACE_OF_BIRTH'',
      ''MOTHERS_MAIDEN_NAME'', ''EMAIL'', ''PHONE'', ''ADDRESS'',
      ''IP_ADDRESS'', ''MEDICAL_RECORD'', ''HEALTH_INSURANCE_ID'',
      ''BIOMETRIC'', ''VEHICLE_REGISTRATION'', ''LICENSE_PLATE'',
      ''DIGITAL_SIGNATURE'', ''CREDENTIALS'', ''EMPLOYEE_ID'', ''STUDENT_ID'',
      ''MILITARY_ID'']"
  by (simp add: US_PII_TYPES_def)

lemma distinct_codes: "distinct (map code US_PII_TYPES)"
  unfolding codes_US_PII_TYPES by simp

lemma code_set: "code ` set US_PII_TYPES = set (map code US_PII_TYPES)"
  by simp

lemma PII_TYPE_MAP_None: "et \<notin> code ` set US_PII_TYPES \<Longrightarrow> PII_TYPE_MAP et = None"
  by (simp add: PII_TYPE_MAP_def dict_by_None)

lemma PII_TYPE_MAP_Some: "p \<in> set US_PII_TYPES \<Longrightarrow> PII_TYPE_MAP (code p) = Some p"
  by (simp add: PII_TYPE_MAP_def dict_by_Some distinct_codes)

lemma pii_type_new_PIIMatch:
  "m_pii_type (new_PIIMatch et txt s e sc None) = PII_TYPE_MAP et"
  by (simp add: new_PIIMatch_def)

lemma entity_names_without_code:
  "et \<in> {''US_SSN'', ''EMAIL_ADDRESS'', ''PERSON'', ''PHONE_NUMBER'', ''US_PASSPORT''} \<Longrightarrow>
   et \<notin> code ` set US_PII_TYPES"
  unfolding code_set codes_US_PII_TYPES by auto

lemma entity_names_supported:
  "et \<in> {''US_SSN'', ''EMAIL_ADDRESS'', ''PERSON'', ''PHONE_NUMBER'', ''US_PASSPORT''} \<Longrightarrow>
   et \<in> set (PRESIDIO_ENTITIES @ CUSTOM_ENTITIES)"
  by (auto simp add: PRESIDIO_ENTITIES_def CUSTOM_ENTITIES_def)

lemma entity_names_with_code:
  "et \<in> {''CREDIT_CARD'', ''IP_ADDRESS'', ''STATE_ID'', ''MEDICAL_RECORD''} \<Longrightarrow>
   et \<in> code ` set US_PII_TYPES"
  unfolding code_set codes_US_PII_TYPES by auto

text \<open>
  C10. The lookup in \<open>__post_init__\<close>, made when the constructor is given no PII type,
  is keyed by \<open>PIIType.code\<close>. A match built
  with an entity type that is no code gets no PII type; this is the case of the detection
  entity names US_SSN, EMAIL_ADDRESS, PERSON, PHONE_NUMBER and US_PASSPORT. A match built
  with the code of an entry of the table gets that entry; CREDIT_CARD, IP_ADDRESS, STATE_ID
  and MEDICAL_RECORD are such codes.
\<close>

theorem pii_type_lookup_keyed_by_code:
  "(et \<notin> code ` set US_PII_TYPES \<longrightarrow>
      m_pii_type (new_PIIMatch et txt s e sc None) = None)
   \<and> (p \<in> set US_PII_TYPES \<longrightarrow>
      m_pii_type (new_PIIMatch (code p) txt s e sc None) = Some p)
   \<and> (\<forall>n \<in> {''US_SSN'', ''EMAIL_ADDRESS'', ''PERSON'', ''PHONE_NUMBER'', ''US_PASSPORT''}.
        n \<in> set (PRESIDIO_ENTITIES @ CUSTOM_ENTITIES)
        \<and> m_pii_type (new_PIIMatch n txt s e sc None) = None)
   \<and> (\<forall>n \<in> {''CREDIT_CARD'', ''IP_ADDRESS'', ''STATE_ID'', ''MEDICAL_RECORD''}.
        \<exists>q \<in> set US_PII_TYPES. code q = n
          \<and> m_pii_type (new_PIIMatch n txt s e sc None) = Some q)"
proof (intro conjI impI ballI)
  assume "et \<notin> code ` set US_PII_TYPES"
  then show "m_pii_type (new_PIIMatch et txt s e sc None) = None"
    by (simp add: pii_type_new_PIIMatch PII_TYPE_MAP_None)
next
  assume "p \<in> set US_PII_TYPES"
  then show "m_pii_type (new_PIIMatch (code p) txt s e sc None) = Some p"
    by (simp add: pii_type_new_PIIMatch PII_TYPE_MAP_Some)
next
  fix n :: string
  assume "n \<in> {''US_SSN'', ''EMAIL_ADDRESS'', ''PERSON'', ''PHONE_NUMBER'', ''US_PASSPORT''}"
  then show "n \<in> set (PRESIDIO_ENTITIES @ CUSTOM_ENTITIES)"
    by (rule entity_names_supported)
next
  fix n :: string
  assume "n \<in> {''US_SSN'', ''EMAIL_ADDRESS'', ''PERSON'', ''PHONE_NUMBER'', ''US_PASSPORT''}"
  then have "n \<notin> code ` set US_PII_TYPES"
    by (rule entity_names_without_code)
  then show "m_pii_type (new_PIIMatch n txt s e sc None) = None"
    by (simp add: pii_type_new_PIIMatch PII_TYPE_MAP_None)
next
  fix n :: string
  assume "n \<in> {''CREDIT_CARD'', ''IP_ADDRESS'', ''STATE_ID'', ''MEDICAL_RECORD''}"
  then have "n \<in> code ` set US_PII_TYPES"
    by (rule entity_names_with_code)
  then obtain q where q: "q \<in> set US_PII_TYPES" "code q = n"
    by auto
  then have "m_pii_type (new_PIIMatch n txt s e sc None) = Some q"
    using PII_TYPE_MAP_Some [OF q(1)] by (simp add: pii_type_new_PIIMatch)
  with q show "\<exists>q \<in> set US_PII_TYPES. code q = n
          \<and> m_pii_type (new_PIIMatch n txt s e sc None) = Some q"
    by blast
qed

theorem pii_type_lookup_keyed_by_code_witness:
  "''US_SSN'' \<notin> code ` set US_PII_TYPES
   \<and> m_pii_type (new_PIIMatch ''US_SSN'' ''123-45-6789'' 0 11 0.95 None) = None
   \<and> US_PII_TYPES ! 6 \<in> set US_PII_TYPES
   \<and> code (US_PII_TYPES ! 6) = ''CREDIT_CARD''
   \<and> m_pii_type (new_PIIMatch ''CREDIT_CARD'' ''4111111111111111'' 0 16 0.9 None)
       = Some (US_PII_TYPES ! 6)
   \<and> m_pii_type (new_PIIMatch ''PERSON'' ''John Doe'' 0 8 0.85 None) = None"
proof -
  have a: "''US_SSN'' \<notin> code ` set US_PII_TYPES"
    unfolding code_set codes_US_PII_TYPES by simp
  have b: "US_PII_TYPES ! 6 \<in> set US_PII_TYPES"
    by (simp add: US_PII_TYPES_def)
  have c: "code (US_PII_TYPES ! 6) = ''CREDIT_CARD''"
    by (simp add: US_PII_TYPES_def)
  have d: "''PERSON'' \<in> {''US_SSN'', ''EMAIL_ADDRESS'', ''PERSON'', ''PHONE_NUMBER'', ''US_PASSPORT''}"
    by simp
  from pii_type_lookup_keyed_by_code
         [of "''US_SSN''" "''123-45-6789''" 0 11 "0.95" "US_PII_TYPES ! 6"]
  have "m_pii_type (new_PIIMatch ''US_SSN'' ''123-45-6789'' 0 11 0.95 None) = None"
    using a by blast
  moreover from pii_type_lookup_keyed_by_code
         [of "''US_SSN''" "''4111111111111111''" 0 16 "0.9" "US_PII_TYPES ! 6"]
  have "m_pii_type (new_PIIMatch ''CREDIT_CARD'' ''4111111111111111'' 0 16 0.9 None)
          = Some (US_PII_TYPES ! 6)"
    using b c by simp
  moreover from pii_type_lookup_keyed_by_code
         [of "''US_SSN''" "''John Doe''" 0 8 "0.85" "US_PII_TYPES ! 6"]
  have "m_pii_type (new_PIIMatch ''PERSON'' ''John Doe'' 0 8 0.85 None) = None"
    using d by blast
  ultimately show ?thesis
    using a b c by simp
qed

section \<open>The rewrite in descending order\<close>

lemma anonymize_loop_result:
  "\<exists>new g'. anonymize_loop fk ms (t, infos, g) = (foldl apply_replacement t new, infos @ new, g')
      \<and> map info_key new = map match_key ms
      \<and> length new = length ms"
proof (induction ms arbitrary: t infos g)
  case Nil
  show ?case by simp
next
  case (Cons m ms)
  obtain fake g1 where gen: "generate_replacement fk (m_entity_type m) g = (fake, g1)"
    by (cases "generate_replacement fk (m_entity_type m) g")
  define r where "r = \<lparr>entity_type = m_entity_type m, original_value = m_text m,
                      replacement_value = fake, position = (m_start m, m_end m),
                      confidence_score = m_score m\<rparr>"
  from Cons.IH [of "apply_replacement t r" "infos @ [r]" g1]
  obtain new g' where
    new: "anonymize_loop fk ms (apply_replacement t r, infos @ [r], g1)
            = (foldl apply_replacement (apply_replacement t r) new, (infos @ [r]) @ new, g')"
      "map info_key new = map match_key ms" "length new = length ms"
    by blast
  have step: "anonymize_loop fk (m # ms) (t, infos, g)
                = anonymize_loop fk ms (apply_replacement t r, infos @ [r], g1)"
    by (simp add: gen r_def apply_replacement_def)
  have "anonymize_loop fk (m # ms) (t, infos, g)
          = (foldl apply_replacement t (r # new), infos @ (r # new), g')"
    using step new(1) by simp
  moreover have "map info_key (r # new) = map match_key (m # ms)"
    using new(2) by (simp add: r_def info_key_def match_key_def)
  moreover have "length (r # new) = length (m # ms)"
    using new(3) by simp
  ultimately show ?case by blast
qed

lemma anonymize_text_loop_eq:
  "anonymize_text_loop fk ms (t, g) =
     (case anonymize_loop fk ms (t, infos, g) of (t', infos', g') \<Rightarrow> (t', g'))"
proof (induction ms arbitrary: t infos g)
  case Nil
  show ?case by simp
next
  case (Cons m ms)
  obtain fake g1 where gen: "generate_replacement fk (m_entity_type m) g = (fake, g1)"
    by (cases "generate_replacement fk (m_entity_type m) g")
  show ?case
    using Cons.IH by (simp add: gen)
qed

lemma ordered_spans_bound: "ordered_spans t c rs \<Longrightarrow> 0 \<le> c \<and> c \<le> int (length t)"
  by (induction rs arbitrary: c) force+

lemma ordered_spans_mono: "ordered_spans t c rs \<Longrightarrow> 0 \<le> c' \<Longrightarrow> c' \<le> c \<Longrightarrow> ordered_spans t c' rs"
  by (cases rs) auto

lemma rebuild_cursor:
  "ordered_spans t c rs \<Longrightarrow> c' \<le> nat c \<Longrightarrow>
   rebuild t c' rs = take (nat c - c') (drop c' t) @ rebuild t (nat c) rs"
proof (cases rs)
  case Nil
  assume a: "ordered_spans t c rs" "c' \<le> nat c"
  have "drop (nat c - c') (drop c' t) = drop (nat c) t"
    using a(2) by simp
  then have "take (nat c - c') (drop c' t) @ drop (nat c) t = drop c' t"
    using append_take_drop_id [of "nat c - c'" "drop c' t"] by simp
  then show ?thesis
    using Nil by simp
next
  case (Cons r rs')
  assume a: "ordered_spans t c rs" "c' \<le> nat c"
  let ?s = "nat (fst (position r))"
  from a Cons have le: "nat c \<le> ?s" by (auto intro: nat_mono)
  have "take (?s - c') (drop c' t)
          = take (nat c - c') (drop c' t) @ take (?s - nat c) (drop (nat c) t)"
  proof -
    have "?s - c' = (nat c - c') + (?s - nat c)" using a(2) le by simp
    then have "take (?s - c') (drop c' t)
                 = take (nat c - c') (drop c' t) @ take (?s - nat c) (drop (nat c - c') (drop c' t))"
      by (simp add: take_add)
    then show ?thesis using a(2) by simp
  qed
  then show ?thesis
    using Cons by simp
qed

lemma slice_to_nonneg: "0 \<le> i \<Longrightarrow> slice_to s i = take (nat i) s"
  by (cases "nat i \<le> length s") (simp_all add: slice_to_def slice_index_def min_def)

lemma slice_from_nonneg: "0 \<le> i \<Longrightarrow> slice_from s i = drop (nat i) s"
  by (cases "nat i \<le> length s") (simp_all add: slice_from_def slice_index_def min_def)

lemma rewrite_descending:
  "ordered_spans t 0 rs \<Longrightarrow> foldl apply_replacement t (rev rs) = rebuild t 0 rs"
proof (induction rs)
  case Nil
  show ?case by simp
next
  case (Cons r rs)
  let ?s = "fst (position r)" and ?e = "snd (position r)"
  from Cons.prems have s: "0 \<le> ?s" "?s < ?e" and tl: "ordered_spans t ?e rs"
    by simp_all
  from tl have e: "?e \<le> int (length t)"
    using ordered_spans_bound by blast
  have "ordered_spans t 0 rs"
    using tl s by (auto intro: ordered_spans_mono)
  then have IH: "foldl apply_replacement t (rev rs) = rebuild t 0 rs"
    by (rule Cons.IH)
  have split: "rebuild t 0 rs = take (nat ?e) t @ rebuild t (nat ?e) rs"
    using rebuild_cursor [OF tl, of 0] by simp
  have len: "length (take (nat ?e) t) = nat ?e"
    using e s by simp
  have "apply_replacement (take (nat ?e) t @ rebuild t (nat ?e) rs) r
          = take (nat ?s) t @ replacement_value r @ rebuild t (nat ?e) rs"
  proof -
    have le: "nat ?s \<le> nat ?e"
      using s by simp
    have "take (nat ?s) (take (nat ?e) t @ rebuild t (nat ?e) rs)
            = take (nat ?s) (take (nat ?e) t)"
      using le len by (simp del: length_take)
    also have "\<dots> = take (nat ?s) t"
      using le by (simp add: min_def)
    finally have a: "take (nat ?s) (take (nat ?e) t @ rebuild t (nat ?e) rs) = take (nat ?s) t" .
    have b: "drop (nat ?e) (take (nat ?e) t @ rebuild t (nat ?e) rs) = rebuild t (nat ?e) rs"
      using len by (simp del: length_take)
    show ?thesis
      using s a b by (simp add: apply_replacement_def slice_to_nonneg slice_from_nonneg)
  qed
  then show ?case
    using IH split by simp
qed

lemma ordered_spans_starts:
  "ordered_spans t c rs \<Longrightarrow> r \<in> set rs \<Longrightarrow>
   c \<le> fst (position r) \<and> fst (position r) < snd (position r) \<and> snd (position r) \<le> int (length t)"
proof (induction rs arbitrary: c)
  case Nil
  then show ?case by simp
next
  case (Cons r0 rs)
  from Cons.prems(1) have tl: "ordered_spans t (snd (position r0)) rs"
    and h: "c \<le> fst (position r0)" "fst (position r0) < snd (position r0)"
    by simp_all
  show ?case
  proof (cases "r = r0")
    case True
    then show ?thesis
      using h ordered_spans_bound [OF tl] by simp
  next
    case False
    with Cons.prems(2) have "r \<in> set rs" by simp
    from Cons.IH [OF tl this] show ?thesis
      using h by simp
  qed
qed

lemma shift_before_Cons:
  "shift_before (r # rs) p = (if fst (position r) < p then delta r else 0) + shift_before rs p"
  by (simp add: shift_before_def)

lemma shift_before_zero:
  "ordered_spans t c rs \<Longrightarrow> p \<le> c \<Longrightarrow> shift_before rs p = 0"
proof -
  assume a: "ordered_spans t c rs" "p \<le> c"
  have "filter (\<lambda>r. fst (position r) < p) rs = []"
    unfolding filter_empty_conv
  proof
    fix r assume "r \<in> set rs"
    from ordered_spans_starts [OF a(1) this] a(2)
    show "\<not> fst (position r) < p" by simp
  qed
  then show ?thesis
    by (simp add: shift_before_def)
qed

lemma length_gap:
  "int c \<le> s \<Longrightarrow> s \<le> int (length t) \<Longrightarrow> length (take (nat s - c) (drop c t)) = nat s - c"
  by simp

lemma length_rebuild:
  "ordered_spans t (int c) rs \<Longrightarrow>
   int (length (rebuild t c rs)) = int (length t) - int c + sum_list (map delta rs)"
proof (induction rs arbitrary: c)
  case Nil
  then show ?case by simp
next
  case (Cons r rs)
  let ?s = "fst (position r)" and ?e = "snd (position r)"
  from Cons.prems have h: "int c \<le> ?s" "?s < ?e" and tl: "ordered_spans t ?e rs"
    by simp_all
  from ordered_spans_bound [OF tl] have e: "0 \<le> ?e" "?e \<le> int (length t)"
    by simp_all
  have tl': "ordered_spans t (int (nat ?e)) rs"
    using tl e by simp
  have "int (length (rebuild t (nat ?e) rs))
          = int (length t) - int (nat ?e) + sum_list (map delta rs)"
    by (rule Cons.IH [OF tl'])
  moreover have "length (take (nat ?s - c) (drop c t)) = nat ?s - c"
    using h e by (intro length_gap) simp_all
  moreover have "delta r = int (length (replacement_value r)) - (?e - ?s)"
    by (simp add: delta_def)
  ultimately show ?case
    using h e by (simp del: length_take)
qed

lemma replacement_in_rebuild:
  "ordered_spans t (int c) rs \<Longrightarrow> r \<in> set rs \<Longrightarrow>
   0 \<le> fst (position r) - int c + shift_before rs (fst (position r))
   \<and> take (length (replacement_value r))
        (drop (nat (fst (position r) - int c + shift_before rs (fst (position r))))
           (rebuild t c rs)) = replacement_value r"
proof (induction rs arbitrary: c)
  case Nil
  then show ?case by simp
next
  case (Cons r0 rs)
  let ?a = "fst (position r0)" and ?b = "snd (position r0)"
  let ?gap = "take (nat ?a - c) (drop c t)"
  let ?rest = "rebuild t (nat ?b) rs"
  from Cons.prems(1) have h: "int c \<le> ?a" "?a < ?b" and tl: "ordered_spans t ?b rs"
    by simp_all
  from ordered_spans_bound [OF tl] have e: "0 \<le> ?b" "?b \<le> int (length t)"
    by simp_all
  have tl': "ordered_spans t (int (nat ?b)) rs"
    using tl e by simp
  have gap: "length ?gap = nat ?a - c"
    using h e by (intro length_gap) simp_all
  have out: "rebuild t c (r0 # rs) = ?gap @ replacement_value r0 @ ?rest"
    by simp
  show ?case
  proof (cases "r = r0")
    case True
    have z: "shift_before (r0 # rs) ?a = 0"
      using shift_before_zero [OF tl, of ?a] h by (simp add: shift_before_Cons)
    have n: "nat (?a - int c) = length ?gap"
      using gap h by simp
    show ?thesis
      unfolding True z out using h n by (simp del: length_take)
  next
    case False
    with Cons.prems(2) have mem: "r \<in> set rs" by simp
    let ?s = "fst (position r)"
    let ?q' = "?s - int (nat ?b) + shift_before rs ?s"
    from Cons.IH [OF tl' mem]
    have q': "0 \<le> ?q'"
      and IH: "take (length (replacement_value r)) (drop (nat ?q') ?rest) = replacement_value r"
      by simp_all
    from ordered_spans_starts [OF tl mem] have s: "?b \<le> ?s"
      by simp
    have sh: "shift_before (r0 # rs) ?s = delta r0 + shift_before rs ?s"
      using s h by (simp add: shift_before_Cons)
    have d0: "delta r0 = int (length (replacement_value r0)) - (?b - ?a)"
      by (simp add: delta_def)
    have q: "?s - int c + shift_before (r0 # rs) ?s
               = int (length ?gap) + int (length (replacement_value r0)) + ?q'"
      unfolding sh d0 gap using h e by simp
    have nq: "nat (?s - int c + shift_before (r0 # rs) ?s)
               = length ?gap + length (replacement_value r0) + nat ?q'"
      unfolding q using q' by (simp add: nat_add_distrib)
    have dr: "drop (nat (?s - int c + shift_before (r0 # rs) ?s)) (rebuild t c (r0 # rs))
            = drop (nat ?q') ?rest"
      unfolding nq out by (simp del: length_take)
    have "take (length (replacement_value r))
            (drop (nat (?s - int c + shift_before (r0 # rs) ?s)) (rebuild t c (r0 # rs)))
          = replacement_value r"
      unfolding dr by (rule IH)
    moreover have "0 \<le> ?s - int c + shift_before (r0 # rs) ?s"
      unfolding q using q' by linarith
    ultimately show ?thesis
      by blast
  qed
qed

lemma char_in_rebuild:
  "ordered_spans t (int c) rs \<Longrightarrow> int c \<le> p \<Longrightarrow> p < int (length t) \<Longrightarrow>
   \<forall>r\<in>set rs. \<not> (fst (position r) \<le> p \<and> p < snd (position r)) \<Longrightarrow>
   0 \<le> p - int c + shift_before rs p
   \<and> nat (p - int c + shift_before rs p) < length (rebuild t c rs)
   \<and> rebuild t c rs ! nat (p - int c + shift_before rs p) = t ! nat p"
proof (induction rs arbitrary: c)
  case Nil
  have "nat (p - int c) = nat p - c"
    using Nil.prems by simp
  moreover have "c + (nat p - c) = nat p" "nat p < length t"
    using Nil.prems by simp_all
  ultimately show ?case
    using Nil.prems by (simp add: shift_before_def)
next
  case (Cons r0 rs)
  let ?a = "fst (position r0)" and ?b = "snd (position r0)"
  let ?gap = "take (nat ?a - c) (drop c t)"
  let ?rest = "rebuild t (nat ?b) rs"
  from Cons.prems(1) have h: "int c \<le> ?a" "?a < ?b" and tl: "ordered_spans t ?b rs"
    by simp_all
  from ordered_spans_bound [OF tl] have e: "0 \<le> ?b" "?b \<le> int (length t)"
    by simp_all
  have tl': "ordered_spans t (int (nat ?b)) rs"
    using tl e by simp
  have gap: "length ?gap = nat ?a - c"
    using h e by (intro length_gap) simp_all
  have out: "rebuild t c (r0 # rs) = ?gap @ replacement_value r0 @ ?rest"
    by simp
  from Cons.prems(4) have outside: "\<not> (?a \<le> p \<and> p < ?b)"
    and outside_tl: "\<forall>r\<in>set rs. \<not> (fst (position r) \<le> p \<and> p < snd (position r))"
    by simp_all
  show ?case
  proof (cases "p < ?a")
    case True
    have "shift_before rs p = 0"
      using shift_before_zero [OF tl, of p] True h by simp
    then have z: "shift_before (r0 # rs) p = 0"
      using True by (simp add: shift_before_Cons)
    have n1: "nat (p - int c) = nat p - c"
      using Cons.prems(2) by simp
    have lt: "nat p - c < nat ?a - c"
      using Cons.prems(2) True by linarith
    then have n2: "nat p - c < length ?gap"
      unfolding gap .
    note n = n1 n2
    have cp: "c + (nat p - c) = nat p" "c \<le> length t"
      using Cons.prems(2,3) by simp_all
    have "?gap ! (nat p - c) = drop c t ! (nat p - c)"
      by (rule nth_take [OF lt])
    also have "\<dots> = t ! (c + (nat p - c))"
      by (rule nth_drop [OF cp(2)])
    finally have "?gap ! (nat p - c) = t ! nat p"
      unfolding cp(1) .
    then have "rebuild t c (r0 # rs) ! nat (p - int c) = t ! nat p"
      unfolding out n(1) using n(2) by (simp add: nth_append del: length_take)
    moreover have "nat (p - int c) < length (rebuild t c (r0 # rs))"
      unfolding out n(1) using n(2) by (simp del: length_take)
    ultimately show ?thesis
      unfolding z using Cons.prems(2) by simp
  next
    case False
    with outside have p: "?b \<le> p" "?a < p"
      using h by simp_all
    let ?q' = "p - int (nat ?b) + shift_before rs p"
    have "int (nat ?b) \<le> p"
      using p e by simp
    from Cons.IH [OF tl' this Cons.prems(3) outside_tl]
    have q': "0 \<le> ?q'" and lt: "nat ?q' < length ?rest"
      and IH: "?rest ! nat ?q' = t ! nat p"
      by simp_all
    have sh: "shift_before (r0 # rs) p = delta r0 + shift_before rs p"
      using p by (simp add: shift_before_Cons)
    have d0: "delta r0 = int (length (replacement_value r0)) - (?b - ?a)"
      by (simp add: delta_def)
    have q: "p - int c + shift_before (r0 # rs) p
               = int (length ?gap) + int (length (replacement_value r0)) + ?q'"
      unfolding sh d0 gap using h e by simp
    have nq: "nat (p - int c + shift_before (r0 # rs) p)
               = length ?gap + length (replacement_value r0) + nat ?q'"
      unfolding q using q' by (simp add: nat_add_distrib)
    have "rebuild t c (r0 # rs) ! nat (p - int c + shift_before (r0 # rs) p) = ?rest ! nat ?q'"
      unfolding nq out by (simp add: nth_append del: length_take)
    then have "rebuild t c (r0 # rs) ! nat (p - int c + shift_before (r0 # rs) p) = t ! nat p"
      using IH by simp
    moreover have "nat (p - int c + shift_before (r0 # rs) p) < length (rebuild t c (r0 # rs))"
      unfolding nq out using lt by (simp del: length_take)
    moreover have "0 \<le> p - int c + shift_before (r0 # rs) p"
      unfolding q using q' by linarith
    ultimately show ?thesis
      by blast
  qed
qed

lemma spans_disjoint_iff:
  "spans_disjoint a b \<longleftrightarrow> {fst a..<snd a} \<inter> {fst b..<snd b} = {}"
proof
  assume "spans_disjoint a b"
  then show "{fst a..<snd a} \<inter> {fst b..<snd b} = {}"
    by (auto simp add: spans_disjoint_def min_def max_def split: if_splits)
next
  assume d: "{fst a..<snd a} \<inter> {fst b..<snd b} = {}"
  show "spans_disjoint a b"
  proof (rule ccontr)
    assume "\<not> spans_disjoint a b"
    then have "max (fst a) (fst b) \<in> {fst a..<snd a} \<inter> {fst b..<snd b}"
      by (auto simp add: spans_disjoint_def)
    with d show False by simp
  qed
qed

lemma spans_disjoint_sym: "spans_disjoint a b \<Longrightarrow> spans_disjoint b a"
  by (simp add: spans_disjoint_def min.commute max.commute)

lemma non_overlapping_sorted_wrt: "non_overlapping xs = sorted_wrt spans_disjoint xs"
  by (induction xs) (simp_all add: list_all_iff)

lemma non_overlapping_nth:
  "non_overlapping xs \<longleftrightarrow>
     (\<forall>i<length xs. \<forall>j<length xs. i \<noteq> j \<longrightarrow> spans_disjoint (xs ! i) (xs ! j))"
proof
  assume "non_overlapping xs"
  then have s: "\<forall>i j. i < j \<longrightarrow> j < length xs \<longrightarrow> spans_disjoint (xs ! i) (xs ! j)"
    by (simp add: non_overlapping_sorted_wrt sorted_wrt_iff_nth_less)
  show "\<forall>i<length xs. \<forall>j<length xs. i \<noteq> j \<longrightarrow> spans_disjoint (xs ! i) (xs ! j)"
  proof (intro allI impI)
    fix i j assume ij: "i < length xs" "j < length xs" "i \<noteq> j"
    show "spans_disjoint (xs ! i) (xs ! j)"
    proof (cases "i < j")
      case True
      with s ij show ?thesis by blast
    next
      case False
      with ij have "j < i" by simp
      with s ij have "spans_disjoint (xs ! j) (xs ! i)" by blast
      then show ?thesis by (rule spans_disjoint_sym)
    qed
  qed
next
  assume "\<forall>i<length xs. \<forall>j<length xs. i \<noteq> j \<longrightarrow> spans_disjoint (xs ! i) (xs ! j)"
  then show "non_overlapping xs"
    by (simp add: non_overlapping_sorted_wrt sorted_wrt_iff_nth_less)
qed

lemma sorted_wrt_map_insort_key:
  assumes sym: "\<And>a b. P a b \<Longrightarrow> P b a"
  shows "sorted_wrt P (map h (insort_key f x xs))
           \<longleftrightarrow> (\<forall>y\<in>set xs. P (h x) (h y)) \<and> sorted_wrt P (map h xs)"
  by (induction xs) (auto simp add: set_insort_key dest: sym)

lemma sorted_wrt_map_sort_key:
  assumes sym: "\<And>a b. P a b \<Longrightarrow> P b a"
  shows "sorted_wrt P (map h (sort_key f xs)) \<longleftrightarrow> sorted_wrt P (map h xs)"
  by (induction xs) (auto simp add: sorted_wrt_map_insort_key [of P, OF sym])

lemma sorted_wrt_rev_sym:
  assumes sym: "\<And>a b. P a b \<Longrightarrow> P b a"
  shows "sorted_wrt P (rev xs) \<longleftrightarrow> sorted_wrt P xs"
proof -
  have "(\<lambda>x y. P y x) = P"
    using sym by (intro ext) blast
  then show ?thesis
    by (simp add: sorted_wrt_rev)
qed

lemma non_overlapping_sorted:
  "non_overlapping (map span_of (sort_key m_start (rev ms))) \<longleftrightarrow> non_overlapping (map span_of ms)"
proof -
  have "sorted_wrt spans_disjoint (map span_of (sort_key m_start (rev ms)))
          \<longleftrightarrow> sorted_wrt spans_disjoint (map span_of (rev ms))"
    by (rule sorted_wrt_map_sort_key) (rule spans_disjoint_sym)
  also have "\<dots> \<longleftrightarrow> sorted_wrt spans_disjoint (map span_of ms)"
    unfolding rev_map [symmetric] by (rule sorted_wrt_rev_sym) (rule spans_disjoint_sym)
  finally show ?thesis
    by (simp add: non_overlapping_sorted_wrt)
qed

lemma ordered_spans_of_sorted:
  "sorted (map (\<lambda>r. fst (position r)) rs) \<Longrightarrow>
   non_overlapping (map position rs) \<Longrightarrow>
   \<forall>r\<in>set rs. in_bounds t (position r) \<Longrightarrow>
   0 \<le> c \<Longrightarrow> c \<le> int (length t) \<Longrightarrow> \<forall>r\<in>set rs. c \<le> fst (position r) \<Longrightarrow>
   ordered_spans t c rs"
proof (induction rs arbitrary: c)
  case Nil
  then show ?case by simp
next
  case (Cons r rs)
  let ?s = "fst (position r)" and ?e = "snd (position r)"
  from Cons.prems(3) have b: "0 \<le> ?s" "?s < ?e" "?e \<le> int (length t)"
    by (simp_all add: in_bounds_def)
  have after: "\<forall>r'\<in>set rs. ?e \<le> fst (position r')"
  proof
    fix r' assume m: "r' \<in> set rs"
    from Cons.prems(1) m have le: "?s \<le> fst (position r')"
      by auto
    from Cons.prems(2) m have "spans_disjoint (position r) (position r')"
      by (auto simp add: list_all_iff)
    moreover from Cons.prems(3) m have "fst (position r') < snd (position r')"
      by (simp add: in_bounds_def)
    ultimately show "?e \<le> fst (position r')"
      using le b by (simp add: spans_disjoint_def min_def max_def split: if_splits)
  qed
  have "ordered_spans t ?e rs"
    using Cons.prems b after by (intro Cons.IH) simp_all
  then show ?case
    using Cons.prems b by simp
qed

section \<open>The ledger of the anonymizer\<close>

lemma anonymize_run:
  assumes "has_pii d"
  shows "\<exists>ledger g'.
           anonymize fk d g =
             (\<lparr>original_text = d_text d,
               anonymized_text = foldl apply_replacement (d_text d) (rev ledger),
               replacements = ledger,
               total_replacements = int (length ledger)\<rparr>, g')
           \<and> map info_key ledger = map match_key (sort_key m_start (rev (matches d)))"
proof -
  let ?L = "sort_key m_start (rev (matches d))"
  from anonymize_loop_result [of fk "rev ?L" "d_text d" "[]" g]
  obtain new g' where
    run: "anonymize_loop fk (rev ?L) (d_text d, [], g)
            = (foldl apply_replacement (d_text d) new, new, g')"
    and keys: "map info_key new = map match_key (rev ?L)"
    by auto
  have "anonymize fk d g =
          (\<lparr>original_text = d_text d,
            anonymized_text = foldl apply_replacement (d_text d) (rev (rev new)),
            replacements = rev new,
            total_replacements = int (length (rev new))\<rparr>, g')"
    using assms run by (simp add: anonymize_def sorted_by_reverse_def)
  moreover have "map info_key (rev new) = map match_key ?L"
  proof -
    have "map info_key (rev new) = rev (map info_key new)"
      by (simp add: rev_map)
    also have "\<dots> = rev (map match_key (rev ?L))"
      by (simp only: keys)
    also have "\<dots> = map match_key ?L"
      by (simp add: rev_map)
    finally show ?thesis .
  qed
  ultimately show ?thesis
    by blast
qed

lemma position_info_key: "position r = fst (snd (snd (info_key r)))"
  by (simp add: info_key_def)

lemma span_match_key: "span_of m = fst (snd (snd (match_key m)))"
  by (simp add: match_key_def span_of_def)

lemma positions_of_keys:
  "map info_key ledger = map match_key ms \<Longrightarrow> map position ledger = map span_of ms"
proof -
  assume "map info_key ledger = map match_key ms"
  then have "map (\<lambda>k. fst (snd (snd k))) (map info_key ledger)
               = map (\<lambda>k. fst (snd (snd k))) (map match_key ms)"
    by simp
  then show ?thesis
    by (simp add: position_info_key [symmetric] span_match_key [symmetric] comp_def)
qed

lemma starts_sorted: "sorted (map (\<lambda>m. fst (span_of m)) (sort_key m_start ms))"
proof -
  have "(\<lambda>m. fst (span_of m)) = m_start"
    by (simp add: span_of_def)
  then show ?thesis
    by simp
qed

text \<open>
  C4. For a detection result whose count is the number of its matches, as \<open>detect\<close>
  builds it and as the docstring of \<open>anonymize\<close> asks, the ledger holds one record per
  match (the records, read without the replacement value, are the matches as a multiset),
  it is sorted ascending by the original start, the text is the result of applying the
  ledger's replacements from its last record to its first, that is in descending start
  order, and \<open>total_replacements\<close> is the length of the ledger. The matches need not be
  disjoint for this.
\<close>

theorem anonymize_ledger:
  assumes "total_pii_count d = int (length (matches d))"
  shows "length (replacements (fst (anonymize fk d g))) = length (matches d)
    \<and> mset (map info_key (replacements (fst (anonymize fk d g))))
        = mset (map match_key (matches d))
    \<and> sorted (map (\<lambda>r. fst (position r)) (replacements (fst (anonymize fk d g))))
    \<and> anonymized_text (fst (anonymize fk d g))
        = foldl apply_replacement (d_text d) (rev (replacements (fst (anonymize fk d g))))
    \<and> total_replacements (fst (anonymize fk d g))
        = int (length (replacements (fst (anonymize fk d g))))"
proof (cases "has_pii d")
  case False
  with assms have "matches d = []"
    by (simp add: has_pii_def)
  then show ?thesis
    using False by (simp add: anonymize_def)
next
  case True
  let ?L = "sort_key m_start (rev (matches d))"
  from anonymize_run [OF True, of fk g]
  obtain ledger g' where
    res: "anonymize fk d g =
             (\<lparr>original_text = d_text d,
               anonymized_text = foldl apply_replacement (d_text d) (rev ledger),
               replacements = ledger,
               total_replacements = int (length ledger)\<rparr>, g')"
    and keys: "map info_key ledger = map match_key ?L"
    by blast
  have len: "length ledger = length (matches d)"
    using arg_cong [OF keys, of length] by simp
  have "mset (map info_key ledger) = mset (map match_key ?L)"
    using keys by simp
  also have "\<dots> = image_mset match_key (mset ?L)"
    by simp
  also have "mset ?L = mset (matches d)"
    by simp
  finally have ms: "mset (map info_key ledger) = mset (map match_key (matches d))"
    by simp
  have "map (\<lambda>r. fst (position r)) ledger = map fst (map position ledger)"
    by simp
  also have "\<dots> = map fst (map span_of ?L)"
    using positions_of_keys [OF keys] by simp
  also have "\<dots> = map (\<lambda>m. fst (span_of m)) ?L"
    by simp
  finally have "sorted (map (\<lambda>r. fst (position r)) ledger)"
    using starts_sorted [of "rev (matches d)"] by simp
  then show ?thesis
    using len ms by (simp add: res)
qed

theorem anonymize_ledger_witness:
  "total_pii_count sample_detection_result = int (length (matches sample_detection_result))
   \<and> length (replacements (fst (anonymize test_faker sample_detection_result 0))) = 3
   \<and> map (\<lambda>r. fst (position r))
         (replacements (fst (anonymize test_faker sample_detection_result 0))) = [0, 18, 44]
   \<and> total_replacements (fst (anonymize test_faker sample_detection_result 0)) = 3"
proof -
  have h: "total_pii_count sample_detection_result
             = int (length (matches sample_detection_result))"
    by (simp add: sample_detection_result_def sample_matches_def)
  have n: "length (matches sample_detection_result) = 3"
    by (simp add: sample_detection_result_def sample_matches_def)
  have p: "map (\<lambda>r. fst (position r))
             (replacements (fst (anonymize test_faker sample_detection_result 0))) = [0, 18, 44]"
    by (simp add: anonymize_def has_pii_def sample_detection_result_def sample_matches_def
          sorted_by_reverse_def new_PIIMatch_def generate_replacement_def
          build_replacement_generators_def test_faker_def)
  show ?thesis
    using h p anonymize_ledger [OF h, of test_faker 0] n by simp
qed

section \<open>The rewritten text\<close>

lemma slice_take_drop:
  assumes "0 \<le> i" and "take (length v) (drop (nat i) s) = v"
  shows "slice s i (i + int (length v)) = v"
proof -
  have len: "length v \<le> length s - nat i"
  proof -
    have "length v = length (take (length v) (drop (nat i) s))"
      using assms(2) by simp
    then show ?thesis by simp
  qed
  show ?thesis
  proof (cases "length v = 0")
    case True
    then show ?thesis by (simp add: slice_def)
  next
    case False
    with len have lt: "nat i < length s" by (cases "nat i < length s") simp_all
    have lo: "slice_index i (length s) = nat i"
      using assms(1) lt by (simp add: slice_index_def)
    have "nat (i + int (length v)) = nat i + length v"
      using assms(1) by (simp add: nat_add_distrib)
    then have hi: "slice_index (i + int (length v)) (length s) = nat i + length v"
      using assms(1) len lt by (simp add: slice_index_def)
    show ?thesis
      unfolding slice_def lo hi using assms(2) by simp
  qed
qed

lemma anonymize_text_eq:
  "has_pii d \<Longrightarrow>
   fst (anonymize_text fk (d_text d) (matches d) g) = anonymized_text (fst (anonymize fk d g))"
proof -
  assume pii: "has_pii d"
  let ?S = "sorted_by_reverse m_start (matches d)"
  obtain t' infos' g' where run: "anonymize_loop fk ?S (d_text d, [], g) = (t', infos', g')"
    by (cases "anonymize_loop fk ?S (d_text d, [], g)")
  have loop: "anonymize_text_loop fk ?S (d_text d, g) = (t', g')"
    using anonymize_text_loop_eq [of fk ?S "d_text d" g "[]"] run by simp
  have a: "anonymized_text (fst (anonymize fk d g)) = t'"
    using pii run by (simp add: anonymize_def)
  show ?thesis
  proof (cases "matches d = []")
    case True
    then have "t' = d_text d"
      using run by (simp add: sorted_by_reverse_def)
    then show ?thesis
      using a True by (simp add: anonymize_text_def)
  next
    case False
    then show ?thesis
      using a loop by (simp add: anonymize_text_def)
  qed
qed

text \<open>
  C1, as the code has it. Let the rewrite run (\<open>has_pii\<close>) on a text and matches whose spans lie in the
  text, are not empty and are pairwise disjoint. Then \<open>anonymize\<close> and
  \<open>anonymize_text\<close> give the same text \<open>out\<close>, the ledger records the matches, and
  with the shift of an offset being the cumulative length difference of the replacements
  that start strictly before it:
  the length of \<open>out\<close> is the length of the text plus all length differences;
  each replacement stands in \<open>out\<close> at its original start plus the shift of that start,
  \<open>out[new_start : new_start + len(replacement)] == replacement\<close>;
  every character of the text outside the spans stands in \<open>out\<close> at its offset plus
  the shift of that offset.
\<close>

theorem anonymize_rewrite_positions:
  fixes d :: DetectionResult and fk :: "'g Faker" and g :: 'g
  defines "out \<equiv> anonymized_text (fst (anonymize fk d g))"
    and "ledger \<equiv> replacements (fst (anonymize fk d g))"
  assumes pii: "has_pii d"
    and bounds: "\<forall>m\<in>set (matches d). in_bounds (d_text d) (span_of m)"
    and disj: "non_overlapping (map span_of (matches d))"
  shows "fst (anonymize_text fk (d_text d) (matches d) g) = out
    \<and> mset (map info_key ledger) = mset (map match_key (matches d))
    \<and> int (length out) = int (length (d_text d)) + sum_list (map delta ledger)
    \<and> (\<forall>r\<in>set ledger.
          0 \<le> fst (position r) + shift_before ledger (fst (position r))
          \<and> slice out (fst (position r) + shift_before ledger (fst (position r)))
               (fst (position r) + shift_before ledger (fst (position r))
                  + int (length (replacement_value r)))
             = replacement_value r)
    \<and> (\<forall>p. 0 \<le> p \<and> p < int (length (d_text d))
             \<and> (\<forall>m\<in>set (matches d). \<not> (m_start m \<le> p \<and> p < m_end m))
          \<longrightarrow> 0 \<le> p + shift_before ledger p
              \<and> p + shift_before ledger p < int (length out)
              \<and> out ! nat (p + shift_before ledger p) = d_text d ! nat p)"
proof -
  let ?L = "sort_key m_start (rev (matches d))"
  from anonymize_run [OF pii, of fk g]
  obtain A g' where
    res: "anonymize fk d g =
             (\<lparr>original_text = d_text d,
               anonymized_text = foldl apply_replacement (d_text d) (rev A),
               replacements = A,
               total_replacements = int (length A)\<rparr>, g')"
    and keys: "map info_key A = map match_key ?L"
    by blast
  have ledger: "ledger = A" and out0: "out = foldl apply_replacement (d_text d) (rev A)"
    by (simp_all add: ledger_def out_def res)
  have pos: "map position A = map span_of ?L"
    by (rule positions_of_keys [OF keys])
  have srt: "sorted (map (\<lambda>r. fst (position r)) A)"
  proof -
    have "map (\<lambda>r. fst (position r)) A = map fst (map position A)"
      by simp
    also have "\<dots> = map (\<lambda>m. fst (span_of m)) ?L"
      unfolding pos by simp
    finally show ?thesis
      using starts_sorted [of "rev (matches d)"] by simp
  qed
  have no: "non_overlapping (map position A)"
    unfolding pos using disj by (simp add: non_overlapping_sorted)
  have inb: "\<forall>r\<in>set A. in_bounds (d_text d) (position r)"
  proof
    fix r assume "r \<in> set A"
    then have "position r \<in> set (map position A)" by simp
    then have "position r \<in> span_of ` set (matches d)"
      unfolding pos by simp
    with bounds show "in_bounds (d_text d) (position r)" by auto
  qed
  have nonneg: "\<forall>r\<in>set A. 0 \<le> fst (position r)"
    using inb by (simp add: in_bounds_def)
  have ord: "ordered_spans (d_text d) 0 A"
    using srt no inb by (rule ordered_spans_of_sorted) (simp_all add: nonneg)
  have out: "out = rebuild (d_text d) 0 A"
    unfolding out0 by (rule rewrite_descending [OF ord])
  have ord': "ordered_spans (d_text d) (int 0) A"
    using ord by simp
  have c1: "fst (anonymize_text fk (d_text d) (matches d) g) = out"
    unfolding out_def by (rule anonymize_text_eq [OF pii])
  have c2: "mset (map info_key ledger) = mset (map match_key (matches d))"
  proof -
    have "mset (map info_key A) = image_mset match_key (mset ?L)"
      using keys by simp
    also have "mset ?L = mset (matches d)"
      by simp
    finally show ?thesis
      unfolding ledger by simp
  qed
  have c3: "int (length out) = int (length (d_text d)) + sum_list (map delta ledger)"
    unfolding out ledger using length_rebuild [OF ord'] by simp
  have c4: "\<forall>r\<in>set ledger.
          0 \<le> fst (position r) + shift_before ledger (fst (position r))
          \<and> slice out (fst (position r) + shift_before ledger (fst (position r)))
               (fst (position r) + shift_before ledger (fst (position r))
                  + int (length (replacement_value r)))
             = replacement_value r"
  proof
    fix r assume "r \<in> set ledger"
    then have m: "r \<in> set A" unfolding ledger .
    let ?q = "fst (position r) + shift_before A (fst (position r))"
    from replacement_in_rebuild [OF ord' m]
    have q: "0 \<le> ?q"
      and t: "take (length (replacement_value r)) (drop (nat ?q) (rebuild (d_text d) 0 A))
                = replacement_value r"
      by simp_all
    have "slice (rebuild (d_text d) 0 A) ?q (?q + int (length (replacement_value r)))
            = replacement_value r"
      using q t by (rule slice_take_drop)
    then show "0 \<le> fst (position r) + shift_before ledger (fst (position r))
          \<and> slice out (fst (position r) + shift_before ledger (fst (position r)))
               (fst (position r) + shift_before ledger (fst (position r))
                  + int (length (replacement_value r)))
             = replacement_value r"
      unfolding out ledger using q by simp
  qed
  have c5: "\<forall>p. 0 \<le> p \<and> p < int (length (d_text d))
             \<and> (\<forall>m\<in>set (matches d). \<not> (m_start m \<le> p \<and> p < m_end m))
          \<longrightarrow> 0 \<le> p + shift_before ledger p
              \<and> p + shift_before ledger p < int (length out)
              \<and> out ! nat (p + shift_before ledger p) = d_text d ! nat p"
  proof (intro allI impI)
    fix p
    assume a: "0 \<le> p \<and> p < int (length (d_text d))
             \<and> (\<forall>m\<in>set (matches d). \<not> (m_start m \<le> p \<and> p < m_end m))"
    have outside: "\<forall>r\<in>set A. \<not> (fst (position r) \<le> p \<and> p < snd (position r))"
    proof
      fix r assume "r \<in> set A"
      then have "position r \<in> set (map position A)" by simp
      then have "position r \<in> span_of ` set (matches d)"
        unfolding pos by simp
      then obtain m where "m \<in> set (matches d)" "position r = span_of m"
        by auto
      with a show "\<not> (fst (position r) \<le> p \<and> p < snd (position r))"
        by (auto simp add: span_of_def)
    qed
    from a have "int 0 \<le> p" "p < int (length (d_text d))"
      by simp_all
    from char_in_rebuild [OF ord' this outside]
    have "0 \<le> p + shift_before A p"
      "nat (p + shift_before A p) < length (rebuild (d_text d) 0 A)"
      "rebuild (d_text d) 0 A ! nat (p + shift_before A p) = d_text d ! nat p"
      by simp_all
    then show "0 \<le> p + shift_before ledger p
              \<and> p + shift_before ledger p < int (length out)
              \<and> out ! nat (p + shift_before ledger p) = d_text d ! nat p"
      unfolding out ledger by simp
  qed
  from c1 c2 c3 c4 c5 show ?thesis
    by blast
qed

lemma contact_run:
  "anonymize test_faker contact_detection_result 0 =
     (\<lparr>original_text = ''Contact John at john@test.com'',
       anonymized_text = ''Contact Jane Smith at jane@example.org'',
       replacements =
         [\<lparr>entity_type = ''PERSON'', original_value = ''John'',
            replacement_value = ''Jane Smith'', position = (8, 12),
            confidence_score = 0.8\<rparr>,
          \<lparr>entity_type = ''EMAIL_ADDRESS'', original_value = ''john@test.com'',
            replacement_value = ''jane@example.org'', position = (16, 29),
            confidence_score = 0.95\<rparr>],
       total_replacements = 2\<rparr>, 2)"
  by (simp add: anonymize_def has_pii_def contact_detection_result_def contact_matches_def
        sorted_by_reverse_def new_PIIMatch_def generate_replacement_def
        build_replacement_generators_def test_faker_def
        slice_to_def slice_from_def slice_index_def)

theorem anonymize_rewrite_positions_witness:
  "has_pii contact_detection_result
   \<and> list_all (in_bounds (d_text contact_detection_result)) (map span_of contact_matches)
   \<and> non_overlapping (map span_of contact_matches)
   \<and> anonymized_text (fst (anonymize test_faker contact_detection_result 0))
       = ''Contact Jane Smith at jane@example.org''
   \<and> fst (anonymize_text test_faker ''Contact John at john@test.com'' contact_matches 0)
       = ''Contact Jane Smith at jane@example.org''
   \<and> slice ''Contact Jane Smith at jane@example.org'' (16 + 6) (16 + 6 + 16)
       = ''jane@example.org''
   \<and> ''Contact Jane Smith at jane@example.org'' ! nat (13 + 6)
       = ''Contact John at john@test.com'' ! nat 13"
proof -
  let ?d = contact_detection_result
  let ?r = "\<lparr>entity_type = ''EMAIL_ADDRESS'', original_value = ''john@test.com'',
            replacement_value = ''jane@example.org'', position = (16, 29),
            confidence_score = 0.95\<rparr>"
  have m: "matches ?d = contact_matches" "d_text ?d = ''Contact John at john@test.com''"
    by (simp_all add: contact_detection_result_def)
  have h1: "has_pii ?d"
    by (simp add: has_pii_def contact_detection_result_def)
  have h2: "\<forall>m\<in>set (matches ?d). in_bounds (d_text ?d) (span_of m)"
    by (simp add: m contact_matches_def in_bounds_def span_of_def new_PIIMatch_def)
  have h3: "non_overlapping (map span_of (matches ?d))"
    by (simp add: m contact_matches_def span_of_def new_PIIMatch_def spans_disjoint_def)
  have sh: "shift_before (replacements (fst (anonymize test_faker ?d 0))) 16 = 6"
    "shift_before (replacements (fst (anonymize test_faker ?d 0))) 13 = 6"
    by (simp_all add: contact_run shift_before_def delta_def)
  have r: "?r \<in> set (replacements (fst (anonymize test_faker ?d 0)))"
    by (simp add: contact_run)
  have o: "(\<forall>m\<in>set (matches ?d). \<not> (m_start m \<le> 13 \<and> 13 < m_end m))"
    by (simp add: m contact_matches_def new_PIIMatch_def)
  note t = anonymize_rewrite_positions [OF h1 h2 h3, of test_faker 0]
  from t have a: "fst (anonymize_text test_faker (d_text ?d) (matches ?d) 0)
                    = anonymized_text (fst (anonymize test_faker ?d 0))"
    by blast
  from t r have b: "slice (anonymized_text (fst (anonymize test_faker ?d 0)))
          (fst (position ?r) + shift_before (replacements (fst (anonymize test_faker ?d 0))) (fst (position ?r)))
          (fst (position ?r) + shift_before (replacements (fst (anonymize test_faker ?d 0))) (fst (position ?r))
             + int (length (replacement_value ?r))) = replacement_value ?r"
    by blast
  from t o have c: "anonymized_text (fst (anonymize test_faker ?d 0))
                      ! nat (13 + shift_before (replacements (fst (anonymize test_faker ?d 0))) 13)
                    = d_text ?d ! nat 13"
    by (simp add: m)
  have l: "list_all (in_bounds (d_text ?d)) (map span_of contact_matches)"
    using h2 by (simp add: list_all_iff m)
  have e: "anonymized_text (fst (anonymize test_faker ?d 0))
             = ''Contact Jane Smith at jane@example.org''"
    by (simp add: contact_run)
  from b have b': "slice ''Contact Jane Smith at jane@example.org'' (16 + 6) (16 + 6 + 16)
       = ''jane@example.org''"
    unfolding e using sh(1) by simp
  from c have c': "''Contact Jane Smith at jane@example.org'' ! nat (13 + 6)
       = ''Contact John at john@test.com'' ! nat 13"
    unfolding e sh(2) m .
  show ?thesis
    using h1 l h3 a e b' c' unfolding m by simp
qed

text \<open>
  The spans must not be empty. A zero-width match at the start of another match is in the
  text and shares no offset with it, yet the later splice cuts into its replacement.
\<close>

theorem zero_width_span_counterexample:
  "list_all (\<lambda>m. 0 \<le> m_start m \<and> m_start m \<le> m_end m
                \<and> m_end m \<le> int (length (d_text zero_width_detection_result)))
      (matches zero_width_detection_result)
   \<and> non_overlapping (map span_of (matches zero_width_detection_result))
   \<and> {5..<5} \<inter> {5..<8} = ({} :: int set)
   \<and> has_pii zero_width_detection_result
   \<and> fst (anonymize_text test_faker ''abcdefghij'' zero_width_matches 0)
       = ''abcde[REDACTED_Y]DACTED_X]fghij''
   \<and> anonymized_text (fst (anonymize test_faker zero_width_detection_result 0))
       = ''abcde[REDACTED_Y]DACTED_X]fghij''
   \<and> map (\<lambda>r. (position r, replacement_value r))
         (replacements (fst (anonymize test_faker zero_width_detection_result 0)))
       = [((5, 8), ''[REDACTED_Y]''), ((5, 5), ''[REDACTED_X]'')]
   \<and> \<not> sublist ''[REDACTED_X]'' ''abcde[REDACTED_Y]DACTED_X]fghij''"
proof -
  have gx: "\<And>g. generate_replacement test_faker ''X'' g = (''[REDACTED_X]'', g)"
    by (simp add: generate_replacement_def build_replacement_generators_def)
  have gy: "\<And>g. generate_replacement test_faker ''Y'' g = (''[REDACTED_Y]'', g)"
    by (simp add: generate_replacement_def build_replacement_generators_def)
  have a: "list_all (\<lambda>m. 0 \<le> m_start m \<and> m_start m \<le> m_end m
                \<and> m_end m \<le> int (length (d_text zero_width_detection_result)))
      (matches zero_width_detection_result)"
    by (simp add: zero_width_detection_result_def zero_width_matches_def new_PIIMatch_def)
  have b: "non_overlapping (map span_of (matches zero_width_detection_result))"
    by (simp add: zero_width_detection_result_def zero_width_matches_def new_PIIMatch_def
          span_of_def spans_disjoint_def)
  have c: "has_pii zero_width_detection_result"
    by (simp add: has_pii_def zero_width_detection_result_def)
  have d: "fst (anonymize_text test_faker ''abcdefghij'' zero_width_matches 0)
       = ''abcde[REDACTED_Y]DACTED_X]fghij''"
    by (simp add: anonymize_text_def zero_width_matches_def new_PIIMatch_def
          sorted_by_reverse_def gx gy slice_to_def slice_from_def slice_index_def)
  have e: "anonymize test_faker zero_width_detection_result 0 =
     (\<lparr>original_text = ''abcdefghij'',
       anonymized_text = ''abcde[REDACTED_Y]DACTED_X]fghij'',
       replacements =
         [\<lparr>entity_type = ''Y'', original_value = ''fgh'',
            replacement_value = ''[REDACTED_Y]'', position = (5, 8),
            confidence_score = 0.9\<rparr>,
          \<lparr>entity_type = ''X'', original_value = '''',
            replacement_value = ''[REDACTED_X]'', position = (5, 5),
            confidence_score = 0.9\<rparr>],
       total_replacements = 2\<rparr>, 0)"
    by (simp add: anonymize_def has_pii_def zero_width_detection_result_def
          zero_width_matches_def new_PIIMatch_def
          sorted_by_reverse_def gx gy slice_to_def slice_from_def slice_index_def)
  have f: "\<not> sublist ''[REDACTED_X]'' ''abcde[REDACTED_Y]DACTED_X]fghij''"
    by (simp add: sublist_Cons_right)
  show ?thesis
    using a b c d f by (simp add: e)
qed

section \<open>Spans that leave the text or overlap\<close>

lemma gen_passport: "generate_replacement test_faker ''US_PASSPORT'' g = (''100000000'', Suc g)"
  by (simp add: generate_replacement_def build_replacement_generators_def test_faker_def
        generate_passport_number_def drawn_def str_int_def)

lemma gen_state: "generate_replacement test_faker ''STATE_ID'' g = (''Q10000000'', Suc (Suc g))"
  by (simp add: generate_replacement_def build_replacement_generators_def test_faker_def
        generate_state_id_def str_int_def)

lemma gen_person: "generate_replacement test_faker ''PERSON'' g = (''Jane Smith'', Suc g)"
  by (simp add: generate_replacement_def build_replacement_generators_def test_faker_def)

lemma gen_ssn: "generate_replacement test_faker ''US_SSN'' g = (''078-05-1120'', Suc g)"
  by (simp add: generate_replacement_def build_replacement_generators_def test_faker_def)

lemma gen_email:
  "generate_replacement test_faker ''EMAIL_ADDRESS'' g = (''jane@example.org'', Suc g)"
  by (simp add: generate_replacement_def build_replacement_generators_def test_faker_def)

lemma apply_replacement_clamped:
  "0 \<le> fst (position r) \<Longrightarrow> int (length t) \<le> snd (position r) \<Longrightarrow>
   apply_replacement t r = take (nat (fst (position r))) t @ replacement_value r"
  by (simp add: apply_replacement_def slice_to_nonneg slice_from_def slice_index_def)

text \<open>
  The detection result built by hand in the tests of the anonymizer holds a match that
  ends at offset 60 in a text of 59 characters; the anonymizer rewrites it all the same and
  reports three replacements. On the two overlapping matches of the passport scenario it
  splices both and returns the text with two replacements.
\<close>

theorem anonymize_out_of_range_counterexample:
  "int (length (d_text sample_detection_result)) = 59
   \<and> map span_of (matches sample_detection_result) = [(0, 8), (18, 29), (44, 60)]
   \<and> anonymized_text (fst (anonymize test_faker sample_detection_result 0))
       = ''Jane Smith'' @ [squote] @ ''s SSN is 078-05-1120 and email is jjane@example.org''
   \<and> total_replacements (fst (anonymize test_faker sample_detection_result 0)) = 3
   \<and> \<not> non_overlapping (map span_of (matches passport_detection_result))
   \<and> anonymized_text (fst (anonymize test_faker passport_detection_result 0))
       = ''Passport: Q100000000 issued''
   \<and> total_replacements (fst (anonymize test_faker passport_detection_result 0)) = 2"
proof -
  have a: "int (length (d_text sample_detection_result)) = 59"
    by (simp add: sample_detection_result_def)
  have b: "map span_of (matches sample_detection_result) = [(0, 8), (18, 29), (44, 60)]"
    by (simp add: sample_detection_result_def sample_matches_def span_of_def new_PIIMatch_def)
  have c: "anonymize test_faker sample_detection_result 0 =
     (\<lparr>original_text = d_text sample_detection_result,
       anonymized_text =
         ''Jane Smith'' @ [squote] @ ''s SSN is 078-05-1120 and email is jjane@example.org'',
       replacements =
         [\<lparr>entity_type = ''PERSON'', original_value = ''John Doe'',
            replacement_value = ''Jane Smith'', position = (0, 8),
            confidence_score = 0.85\<rparr>,
          \<lparr>entity_type = ''US_SSN'', original_value = ''123-45-6789'',
            replacement_value = ''078-05-1120'', position = (18, 29),
            confidence_score = 0.95\<rparr>,
          \<lparr>entity_type = ''EMAIL_ADDRESS'', original_value = ''john@example.com'',
            replacement_value = ''jane@example.org'', position = (44, 60),
            confidence_score = 0.99\<rparr>],
       total_replacements = 3\<rparr>, 3)"
    by (simp add: anonymize_def has_pii_def sample_detection_result_def sample_matches_def
          sorted_by_reverse_def new_PIIMatch_def gen_person gen_ssn gen_email
          slice_to_def slice_from_def slice_index_def squote_def)
  have d: "\<not> non_overlapping (map span_of (matches passport_detection_result))"
    by (simp add: passport_detection_result_def span_of_def new_PIIMatch_def
          spans_disjoint_def)
  have e: "anonymize test_faker passport_detection_result 0 =
     (\<lparr>original_text = ''Passport: 123456789 issued'',
       anonymized_text = ''Passport: Q100000000 issued'',
       replacements =
         [\<lparr>entity_type = ''STATE_ID'', original_value = ''12345678'',
            replacement_value = ''Q10000000'', position = (10, 18),
            confidence_score = 0.2\<rparr>,
          \<lparr>entity_type = ''US_PASSPORT'', original_value = ''123456789'',
            replacement_value = ''100000000'', position = (10, 19),
            confidence_score = 0.3\<rparr>],
       total_replacements = 2\<rparr>, 3)"
    by (simp add: anonymize_def has_pii_def passport_detection_result_def
          sorted_by_reverse_def new_PIIMatch_def gen_passport gen_state
          slice_to_def slice_from_def slice_index_def)
  show ?thesis
    using a b d by (simp add: c e)
qed

text \<open>
  C3, as the code has it. \<open>anonymize\<close> validates nothing and has no error to raise: when
  the rewrite runs it returns a result whose \<open>original_text\<close> is the input text, with one
  ledger record per match at the spans of the matches in ascending start order, whether or
  not the spans overlap or lie in the text, and the rewritten text is the splice of those
  records from the last to the first. A splice whose end offset is at or beyond the end of
  the text keeps the text before the start offset and appends the replacement, as Python's
  slices clamp.
\<close>

theorem anonymize_without_validation:
  assumes "has_pii d"
  shows "original_text (fst (anonymize fk d g)) = d_text d
    \<and> length (replacements (fst (anonymize fk d g))) = length (matches d)
    \<and> map position (replacements (fst (anonymize fk d g)))
        = map span_of (sort_key m_start (rev (matches d)))
    \<and> anonymized_text (fst (anonymize fk d g))
        = foldl apply_replacement (d_text d) (rev (replacements (fst (anonymize fk d g))))
    \<and> (\<forall>t r. 0 \<le> fst (position r) \<and> int (length t) \<le> snd (position r)
          \<longrightarrow> apply_replacement t r = take (nat (fst (position r))) t @ replacement_value r)"
proof -
  from anonymize_run [OF assms, of fk g]
  obtain ledger g' where
    res: "anonymize fk d g =
             (\<lparr>original_text = d_text d,
               anonymized_text = foldl apply_replacement (d_text d) (rev ledger),
               replacements = ledger,
               total_replacements = int (length ledger)\<rparr>, g')"
    and keys: "map info_key ledger = map match_key (sort_key m_start (rev (matches d)))"
    by blast
  have "length ledger = length (matches d)"
    using arg_cong [OF keys, of length] by simp
  moreover have "map position ledger = map span_of (sort_key m_start (rev (matches d)))"
    by (rule positions_of_keys [OF keys])
  ultimately show ?thesis
    by (simp add: res apply_replacement_clamped)
qed

theorem anonymize_without_validation_witness:
  "has_pii sample_detection_result
   \<and> length (replacements (fst (anonymize test_faker sample_detection_result 0))) = 3
   \<and> original_text (fst (anonymize test_faker sample_detection_result 0))
       = d_text sample_detection_result
   \<and> last (map position (replacements (fst (anonymize test_faker sample_detection_result 0))))
       = (44, 60)"
proof -
  have h: "has_pii sample_detection_result"
    by (simp add: has_pii_def sample_detection_result_def)
  have n: "length (matches sample_detection_result) = 3"
    by (simp add: sample_detection_result_def sample_matches_def)
  have s: "map span_of (sort_key m_start (rev (matches sample_detection_result)))
             = [(0, 8), (18, 29), (44, 60)]"
    by (simp add: sample_detection_result_def sample_matches_def span_of_def new_PIIMatch_def)
  show ?thesis
    using h n s anonymize_without_validation [OF h, of test_faker 0] by simp
qed

section \<open>The matches of a detection\<close>

lemma span_of_match_of_result: "span_of (match_of_result txt r) = result_span r"
  by (simp add: span_of_def match_of_result_def new_PIIMatch_def result_span_def)

lemma m_start_match_of_result: "m_start (match_of_result txt r) = rr_start r"
  by (simp add: match_of_result_def new_PIIMatch_def)

lemma detect_cases:
  assumes "detect self txt = Inr d"
  shows "(txt = [] \<or> strip txt = []) \<and> matches d = []
     \<or> (\<exists>engine. analyzer self = Some engine \<and> \<not> (txt = [] \<or> strip txt = [])
          \<and> matches d = sort_key m_start (map (match_of_result txt)
                (engine txt (language self) (PRESIDIO_ENTITIES @ CUSTOM_ENTITIES)
                   (score_threshold self))))"
proof (cases "txt = [] \<or> strip txt = []")
  case True
  with assms have "d = \<lparr>d_text = txt, matches = [], total_pii_count = 0, pii_types_found = {}\<rparr>"
    by (simp add: detect_def)
  then show ?thesis
    using True by simp
next
  case False
  show ?thesis
  proof (cases "analyzer self")
    case None
    with False assms show ?thesis
      by (simp add: detect_def)
  next
    case (Some engine)
    with False assms show ?thesis
      by (auto simp add: detect_def sorted_by_def Let_def)
  qed
qed

lemma detect_count:
  "detect self txt = Inr d \<Longrightarrow> total_pii_count d = int (length (matches d))"
  by (auto simp add: detect_def sorted_by_def Let_def split: if_splits option.splits)

lemma non_overlapping_sort_key:
  "non_overlapping (map span_of (sort_key m_start ms)) \<longleftrightarrow> non_overlapping (map span_of ms)"
proof -
  have "sorted_wrt spans_disjoint (map span_of (sort_key m_start ms))
          \<longleftrightarrow> sorted_wrt spans_disjoint (map span_of ms)"
    by (rule sorted_wrt_map_sort_key) (rule spans_disjoint_sym)
  then show ?thesis
    by (simp add: non_overlapping_sorted_wrt)
qed

text \<open>
  C2, as the code has it. The matches that \<open>detect\<close> returns are the results of the
  analyzer engine, each made a match, in ascending order of start, results with the same
  start in the order of the engine (the sort is stable). \<open>detect\<close> resolves no
  overlap: the spans of its matches are the spans of the results, and they are pairwise
  non-overlapping exactly when the spans of the results are.
\<close>

theorem detect_sorted_by_start:
  assumes "detect self txt = Inr d"
  shows "sorted (map m_start (matches d))
    \<and> (\<forall>engine. analyzer self = Some engine \<and> strip txt \<noteq> [] \<longrightarrow>
          matches d = sort_key m_start (map (match_of_result txt)
                (engine txt (language self) (PRESIDIO_ENTITIES @ CUSTOM_ENTITIES)
                   (score_threshold self)))
          \<and> mset (matches d)
            = mset (map (match_of_result txt)
                (engine txt (language self) (PRESIDIO_ENTITIES @ CUSTOM_ENTITIES)
                   (score_threshold self)))
          \<and> (\<forall>k. filter (\<lambda>m. m_start m = k) (matches d)
                = filter (\<lambda>m. m_start m = k) (map (match_of_result txt)
                    (engine txt (language self) (PRESIDIO_ENTITIES @ CUSTOM_ENTITIES)
                       (score_threshold self))))
          \<and> mset (map span_of (matches d))
            = mset (map result_span
                (engine txt (language self) (PRESIDIO_ENTITIES @ CUSTOM_ENTITIES)
                   (score_threshold self)))
          \<and> (non_overlapping (map span_of (matches d))
               \<longleftrightarrow> non_overlapping (map result_span
                     (engine txt (language self) (PRESIDIO_ENTITIES @ CUSTOM_ENTITIES)
                        (score_threshold self)))))"
proof -
  from detect_cases [OF assms] show ?thesis
  proof
    assume "(txt = [] \<or> strip txt = []) \<and> matches d = []"
    then show ?thesis
      by (auto simp add: strip_def)
  next
    assume "\<exists>engine. analyzer self = Some engine \<and> \<not> (txt = [] \<or> strip txt = [])
          \<and> matches d = sort_key m_start (map (match_of_result txt)
                (engine txt (language self) (PRESIDIO_ENTITIES @ CUSTOM_ENTITIES)
                   (score_threshold self)))"
    then obtain engine where e: "analyzer self = Some engine"
      and m: "matches d = sort_key m_start (map (match_of_result txt)
                (engine txt (language self) (PRESIDIO_ENTITIES @ CUSTOM_ENTITIES)
                   (score_threshold self)))"
      by blast
    let ?rs = "engine txt (language self) (PRESIDIO_ENTITIES @ CUSTOM_ENTITIES)
                   (score_threshold self)"
    have s: "sorted (map m_start (matches d))"
      unfolding m by simp
    have p: "mset (matches d) = mset (map (match_of_result txt) ?rs)"
      unfolding m by simp
    have st: "\<forall>k. filter (\<lambda>m. m_start m = k) (matches d)
                = filter (\<lambda>m. m_start m = k) (map (match_of_result txt) ?rs)"
      unfolding m by (simp add: sort_key_stable)
    have "mset (map span_of (matches d))
            = image_mset span_of (mset (sort_key m_start (map (match_of_result txt) ?rs)))"
      unfolding m by simp
    also have "\<dots> = image_mset span_of (mset (map (match_of_result txt) ?rs))"
      by simp
    also have "\<dots> = mset (map result_span ?rs)"
      by (simp add: multiset.map_comp comp_def span_of_match_of_result)
    finally have a: "mset (map span_of (matches d)) = mset (map result_span ?rs)" .
    have "non_overlapping (map span_of (matches d))
            \<longleftrightarrow> non_overlapping (map span_of (map (match_of_result txt) ?rs))"
      unfolding m by (rule non_overlapping_sort_key)
    also have "map span_of (map (match_of_result txt) ?rs) = map result_span ?rs"
      by (simp add: span_of_match_of_result)
    finally have b: "non_overlapping (map span_of (matches d))
            \<longleftrightarrow> non_overlapping (map result_span ?rs)" .
    show ?thesis
      using s p st a b e m by simp
  qed
qed

text \<open>
  With an engine that recognises the two candidates of the passport scenario, detection
  at threshold 0.2 returns both matches, and their spans intersect.
\<close>

theorem detect_overlap_counterexample:
  "detect (new_PIIDetector ''en'' 0.2 (Some (threshold_engine (\<lambda>txt lang entities. passport_candidates))))
      ''Passport: 123456789 issued''
     = Inr \<lparr>d_text = ''Passport: 123456789 issued'',
            matches =
              [\<lparr>m_entity_type = ''US_PASSPORT'', m_text = ''123456789'', m_start = 10,
                 m_end = 19, m_score = 0.3, m_pii_type = None\<rparr>,
               \<lparr>m_entity_type = ''STATE_ID'', m_text = ''12345678'', m_start = 10,
                 m_end = 18, m_score = 0.2, m_pii_type = Some (US_PII_TYPES ! 3)\<rparr>],
            total_pii_count = 2,
            pii_types_found = {''US_PASSPORT'', ''STATE_ID''}\<rparr>
   \<and> \<not> non_overlapping [(10, 19), (10, 18)]"
proof -
  have p: "PII_TYPE_MAP ''US_PASSPORT'' = None"
    by (rule PII_TYPE_MAP_None) (simp add: code_set codes_US_PII_TYPES del: set_map)
  have "US_PII_TYPES ! 3 \<in> set US_PII_TYPES" "code (US_PII_TYPES ! 3) = ''STATE_ID''"
    by (simp_all add: US_PII_TYPES_def)
  then have s: "PII_TYPE_MAP ''STATE_ID'' = Some (US_PII_TYPES ! 3)"
    using PII_TYPE_MAP_Some [of "US_PII_TYPES ! 3"] by simp
  have b: "strip ''Passport: 123456789 issued'' \<noteq> []"
    by (simp add: strip_def is_space_def)
  have "\<not> non_overlapping [(10, 19), (10, 18)]"
    by (simp add: spans_disjoint_def)
  then show ?thesis
    using b by (simp add: detect_def new_PIIDetector_def threshold_engine_def
        passport_candidates_def sorted_by_def match_of_result_def new_PIIMatch_def p s
        slice_def slice_index_def insert_commute)
qed

lemma detect_with_engine:
  "detect (new_PIIDetector lang t (Some engine)) txt =
     (if txt = [] \<or> strip txt = [] then
        Inr \<lparr>d_text = txt, matches = [], total_pii_count = 0, pii_types_found = {}\<rparr>
      else
        Inr \<lparr>d_text = txt,
             matches = sort_key m_start (map (match_of_result txt)
                         (engine txt lang (PRESIDIO_ENTITIES @ CUSTOM_ENTITIES) t)),
             total_pii_count = int (length (engine txt lang (PRESIDIO_ENTITIES @ CUSTOM_ENTITIES) t)),
             pii_types_found = set (map rr_entity_type
                         (engine txt lang (PRESIDIO_ENTITIES @ CUSTOM_ENTITIES) t))\<rparr>)"
  by (simp add: detect_def new_PIIDetector_def sorted_by_def Let_def)

lemma contact_types:
  "PII_TYPE_MAP ''PERSON'' = None" "PII_TYPE_MAP ''EMAIL_ADDRESS'' = None"
  by (rule PII_TYPE_MAP_None, simp add: code_set codes_US_PII_TYPES del: set_map)+

lemma contact_not_blank: "\<not> (''Contact John at john@test.com'' = [] \<or> strip ''Contact John at john@test.com'' = [])"
  by (simp add: strip_def is_space_def)

lemma contact_detect_high:
  "detect (new_PIIDetector ''en'' 0.9 (Some (threshold_engine (\<lambda>txt lang entities. contact_candidates))))
      ''Contact John at john@test.com''
     = Inr \<lparr>d_text = ''Contact John at john@test.com'',
            matches =
              [\<lparr>m_entity_type = ''EMAIL_ADDRESS'', m_text = ''john@test.com'', m_start = 16,
                 m_end = 29, m_score = 0.95, m_pii_type = None\<rparr>],
            total_pii_count = 1,
            pii_types_found = {''EMAIL_ADDRESS''}\<rparr>"
  using contact_not_blank
  by (simp add: detect_with_engine threshold_engine_def contact_candidates_def
        match_of_result_def new_PIIMatch_def contact_types slice_def slice_index_def)

lemma passport_detect:
  "detect (new_PIIDetector ''en'' 0.2 (Some (threshold_engine (\<lambda>txt lang entities. passport_candidates))))
      ''Passport: 123456789 issued''
     = Inr \<lparr>d_text = ''Passport: 123456789 issued'',
            matches =
              [\<lparr>m_entity_type = ''US_PASSPORT'', m_text = ''123456789'', m_start = 10,
                 m_end = 19, m_score = 0.3, m_pii_type = None\<rparr>,
               \<lparr>m_entity_type = ''STATE_ID'', m_text = ''12345678'', m_start = 10,
                 m_end = 18, m_score = 0.2, m_pii_type = Some (US_PII_TYPES ! 3)\<rparr>],
            total_pii_count = 2,
            pii_types_found = {''US_PASSPORT'', ''STATE_ID''}\<rparr>"
proof -
  have p: "PII_TYPE_MAP ''US_PASSPORT'' = None"
    by (rule PII_TYPE_MAP_None) (simp add: code_set codes_US_PII_TYPES del: set_map)
  have "US_PII_TYPES ! 3 \<in> set US_PII_TYPES" "code (US_PII_TYPES ! 3) = ''STATE_ID''"
    by (simp_all add: US_PII_TYPES_def)
  then have s: "PII_TYPE_MAP ''STATE_ID'' = Some (US_PII_TYPES ! 3)"
    using PII_TYPE_MAP_Some [of "US_PII_TYPES ! 3"] by simp
  have b: "strip ''Passport: 123456789 issued'' \<noteq> []"
    by (simp add: strip_def is_space_def)
  show ?thesis
    using b by (simp add: detect_def new_PIIDetector_def threshold_engine_def
        passport_candidates_def sorted_by_def match_of_result_def new_PIIMatch_def p s
        slice_def slice_index_def insert_commute)
qed

theorem detect_sorted_by_start_witness:
  "detect (new_PIIDetector ''en'' 0.2 (Some (threshold_engine (\<lambda>txt lang entities. passport_candidates))))
      ''Passport: 123456789 issued''
     = Inr \<lparr>d_text = ''Passport: 123456789 issued'',
            matches =
              [\<lparr>m_entity_type = ''US_PASSPORT'', m_text = ''123456789'', m_start = 10,
                 m_end = 19, m_score = 0.3, m_pii_type = None\<rparr>,
               \<lparr>m_entity_type = ''STATE_ID'', m_text = ''12345678'', m_start = 10,
                 m_end = 18, m_score = 0.2, m_pii_type = Some (US_PII_TYPES ! 3)\<rparr>],
            total_pii_count = 2,
            pii_types_found = {''US_PASSPORT'', ''STATE_ID''}\<rparr>
   \<and> sorted [10, 10 :: int]
   \<and> map m_entity_type
         (filter (\<lambda>m. m_start m = 10)
            (map (match_of_result ''Passport: 123456789 issued'') passport_candidates))
       = [''US_PASSPORT'', ''STATE_ID'']
   \<and> map m_entity_type
         (sort_key m_start
            (map (match_of_result ''Passport: 123456789 issued'') passport_candidates))
       = [''US_PASSPORT'', ''STATE_ID'']"
proof -
  let ?self = "new_PIIDetector ''en'' 0.2
                 (Some (threshold_engine (\<lambda>txt lang entities. passport_candidates)))"
  let ?txt = "''Passport: 123456789 issued''"
  let ?ms = "[\<lparr>m_entity_type = ''US_PASSPORT'', m_text = ''123456789'', m_start = 10,
                 m_end = 19, m_score = 0.3, m_pii_type = None\<rparr>,
               \<lparr>m_entity_type = ''STATE_ID'', m_text = ''12345678'', m_start = 10,
                 m_end = 18, m_score = 0.2, m_pii_type = Some (US_PII_TYPES ! 3)\<rparr>]"
  note t = detect_sorted_by_start [OF passport_detect]
  have an: "analyzer ?self = Some (threshold_engine (\<lambda>txt lang entities. passport_candidates))"
    "language ?self = ''en''" "score_threshold ?self = 0.2"
    by (simp_all add: new_PIIDetector_def)
  have nb: "strip ?txt \<noteq> []"
    by (simp add: strip_def is_space_def)
  have rs: "threshold_engine (\<lambda>txt lang entities. passport_candidates) ?txt ''en''
              (PRESIDIO_ENTITIES @ CUSTOM_ENTITIES) 0.2 = passport_candidates"
    by (simp add: threshold_engine_def passport_candidates_def)
  from t have s: "sorted (map m_start ?ms)"
    by simp
  from t an(1) nb
  have "matches \<lparr>d_text = ?txt, matches = ?ms, total_pii_count = 2,
            pii_types_found = {''US_PASSPORT'', ''STATE_ID''}\<rparr>
          = sort_key m_start (map (match_of_result ?txt)
              (threshold_engine (\<lambda>txt lang entities. passport_candidates) ?txt (language ?self)
                 (PRESIDIO_ENTITIES @ CUSTOM_ENTITIES) (score_threshold ?self)))"
    by blast
  then have l: "sort_key m_start (map (match_of_result ?txt) passport_candidates) = ?ms"
    unfolding an(2,3) rs by simp
  from t an(1) nb
  have "filter (\<lambda>m. m_start m = 10)
          (matches \<lparr>d_text = ?txt, matches = ?ms, total_pii_count = 2,
            pii_types_found = {''US_PASSPORT'', ''STATE_ID''}\<rparr>)
          = filter (\<lambda>m. m_start m = 10) (map (match_of_result ?txt)
              (threshold_engine (\<lambda>txt lang entities. passport_candidates) ?txt (language ?self)
                 (PRESIDIO_ENTITIES @ CUSTOM_ENTITIES) (score_threshold ?self)))"
    by blast
  then have f: "filter (\<lambda>m. m_start m = 10) (map (match_of_result ?txt) passport_candidates)
                  = filter (\<lambda>m. m_start m = 10) ?ms"
    unfolding an(2,3) rs by simp
  have "map m_entity_type (filter (\<lambda>m. m_start m = 10)
          (map (match_of_result ?txt) passport_candidates)) = [''US_PASSPORT'', ''STATE_ID'']"
    unfolding f by simp
  moreover have "map m_entity_type (sort_key m_start
          (map (match_of_result ?txt) passport_candidates)) = [''US_PASSPORT'', ''STATE_ID'']"
    unfolding l by simp
  moreover have "sorted [10, 10 :: int]"
    using s by simp
  ultimately show ?thesis
    using passport_detect by simp
qed

section \<open>The score threshold\<close>

text \<open>
  C9. \<open>detect\<close> hands its \<open>score_threshold\<close> to the analyzer engine and neither
  filters nor selects by score itself. With an engine that keeps the candidates whose
  score reaches the threshold, two detectors that differ only in their thresholds
  \<open>t1 \<le> t2\<close> both return a result on every text, and every match of the detector with
  \<open>t2\<close> is a match of the detector with \<open>t1\<close>, as often as it occurs.
\<close>

theorem detect_threshold_monotone:
  assumes "t1 \<le> t2"
  shows "\<exists>d1 d2.
      detect (new_PIIDetector lang t1 (Some (threshold_engine candidates))) txt = Inr d1
    \<and> detect (new_PIIDetector lang t2 (Some (threshold_engine candidates))) txt = Inr d2
    \<and> mset (matches d2) \<subseteq># mset (matches d1)
    \<and> set (matches d2) \<subseteq> set (matches d1)"
proof (cases "txt = [] \<or> strip txt = []")
  case True
  then show ?thesis
    by (simp add: detect_with_engine)
next
  case False
  let ?cs = "candidates txt lang (PRESIDIO_ENTITIES @ CUSTOM_ENTITIES)"
  let ?m = "\<lambda>t. sort_key m_start (map (match_of_result txt) (filter (\<lambda>r. t \<le> rr_score r) ?cs))"
  have "filter_mset (\<lambda>r. t2 \<le> rr_score r) (mset ?cs) \<subseteq># filter_mset (\<lambda>r. t1 \<le> rr_score r) (mset ?cs)"
    using assms by (intro filter_mset_mono_strong) auto
  then have "image_mset (match_of_result txt) (filter_mset (\<lambda>r. t2 \<le> rr_score r) (mset ?cs))
               \<subseteq># image_mset (match_of_result txt) (filter_mset (\<lambda>r. t1 \<le> rr_score r) (mset ?cs))"
    by (rule image_mset_subseteq_mono)
  then have sub: "mset (?m t2) \<subseteq># mset (?m t1)"
    by simp
  from set_mset_mono [OF sub] have "set (?m t2) \<subseteq> set (?m t1)"
    by (simp only: set_mset_mset)
  with sub show ?thesis
    using False by (simp add: detect_with_engine threshold_engine_def)
qed

theorem detect_threshold_monotone_witness:
  "(0.5 :: real) \<le> 0.9
   \<and> matches (projr (detect (new_PIIDetector ''en'' 0.9
         (Some (threshold_engine (\<lambda>txt lang entities. contact_candidates))))
         ''Contact John at john@test.com''))
      = [\<lparr>m_entity_type = ''EMAIL_ADDRESS'', m_text = ''john@test.com'', m_start = 16,
                 m_end = 29, m_score = 0.95, m_pii_type = None\<rparr>]
   \<and> \<lparr>m_entity_type = ''EMAIL_ADDRESS'', m_text = ''john@test.com'', m_start = 16,
                 m_end = 29, m_score = 0.95, m_pii_type = None\<rparr>
      \<in> set (matches (projr (detect (new_PIIDetector ''en'' 0.5
         (Some (threshold_engine (\<lambda>txt lang entities. contact_candidates))))
         ''Contact John at john@test.com'')))"
proof -
  have h: "(0.5 :: real) \<le> 0.9"
    by simp
  from detect_threshold_monotone [OF h, of "''en''" "\<lambda>txt lang entities. contact_candidates"
     "''Contact John at john@test.com''"]
  obtain d1 d2 where
    d: "detect (new_PIIDetector ''en'' 0.5
         (Some (threshold_engine (\<lambda>txt lang entities. contact_candidates))))
         ''Contact John at john@test.com'' = Inr d1"
       "detect (new_PIIDetector ''en'' 0.9
         (Some (threshold_engine (\<lambda>txt lang entities. contact_candidates))))
         ''Contact John at john@test.com'' = Inr d2"
       "set (matches d2) \<subseteq> set (matches d1)"
    by blast
  have m2: "matches d2 = [\<lparr>m_entity_type = ''EMAIL_ADDRESS'', m_text = ''john@test.com'', m_start = 16,
                 m_end = 29, m_score = 0.95, m_pii_type = None\<rparr>]"
    using d(2) by (auto simp add: contact_detect_high)
  then have "\<lparr>m_entity_type = ''EMAIL_ADDRESS'', m_text = ''john@test.com'', m_start = 16,
                 m_end = 29, m_score = 0.95, m_pii_type = None\<rparr> \<in> set (matches d1)"
    using d(3) by auto
  then show ?thesis
    using h m2 d(1,2) by simp
qed

section \<open>The replacement mapping\<close>

lemma replace_nonempty_absent:
  "old \<noteq> [] \<Longrightarrow> \<not> sublist old s \<Longrightarrow> replace_nonempty old new s = s"
proof (induction s)
  case Nil
  show ?case by simp
next
  case (Cons c cs)
  from Cons.prems(2) have "\<not> prefix old (c # cs)" "\<not> sublist old cs"
    by (simp_all add: sublist_Cons_right)
  then show ?case
    using Cons.IH Cons.prems(1) by simp
qed

lemma prefix_within:
  assumes "old \<noteq> []" and "s \<noteq> []" and "prefix old (s @ old @ rest)"
  shows "sublist old (s @ butlast old)"
proof -
  have len: "length old \<le> length (s @ butlast old)"
    using assms(1,2) by (cases s) simp_all
  have "s @ old @ rest = (s @ butlast old) @ (last old # rest)"
    using assms(1) by simp
  with assms(3) obtain zs where "(s @ butlast old) @ (last old # rest) = old @ zs"
    by (auto elim: prefixE)
  then have "take (length old) ((s @ butlast old) @ (last old # rest)) = old"
    by simp
  moreover have "take (length old) ((s @ butlast old) @ (last old # rest))
                   = take (length old) (s @ butlast old)"
    using len by (simp del: append_assoc)
  ultimately have "take (length old) (s @ butlast old) = old"
    by simp
  then have "prefix old (s @ butlast old)"
    by (metis take_is_prefix)
  then show ?thesis
    by (rule prefix_imp_sublist)
qed

lemma replace_nonempty_occurrence:
  "old \<noteq> [] \<Longrightarrow> \<not> sublist old (s @ butlast old) \<Longrightarrow>
   replace_nonempty old new (s @ old @ rest) = s @ new @ replace_nonempty old new rest"
proof (induction s)
  case Nil
  then obtain c cs where old: "old = c # cs"
    by (cases old) auto
  show ?case
    by (simp add: old)
next
  case (Cons a s)
  have np: "\<not> prefix old ((a # s) @ old @ rest)"
    using prefix_within [of old "a # s" rest] Cons.prems by auto
  have "\<not> sublist old (s @ butlast old)"
    using Cons.prems(2) by (simp add: sublist_Cons_right)
  then have "replace_nonempty old new (s @ old @ rest) = s @ new @ replace_nonempty old new rest"
    using Cons.IH Cons.prems(1) by simp
  then show ?case
    using np by simp
qed

lemma replace_nonempty_join:
  "old \<noteq> [] \<Longrightarrow> segs \<noteq> [] \<Longrightarrow>
   \<forall>s\<in>set (butlast segs). \<not> sublist old (s @ butlast old) \<Longrightarrow>
   \<not> sublist old (last segs) \<Longrightarrow>
   replace_nonempty old new (str_join old segs) = str_join new segs"
proof (induction old segs rule: str_join.induct)
  case (1 sep)
  then show ?case by simp
next
  case (2 sep x)
  then show ?case by (simp add: replace_nonempty_absent)
next
  case (3 sep x y ys)
  have "replace_nonempty sep new (str_join sep (y # ys)) = str_join new (y # ys)"
    using "3.prems" by (intro "3.IH") simp_all
  moreover have "\<not> sublist sep (x @ butlast sep)"
    using "3.prems"(3) by simp
  ultimately show ?case
    using "3.prems"(1) by (simp add: replace_nonempty_occurrence)
qed

lemma replacement_mapping_loop_keys:
  "distinct (map fst mapping) \<Longrightarrow>
   distinct (map fst (fst (replacement_mapping_loop fk ms (mapping, g))))
   \<and> fst ` set (fst (replacement_mapping_loop fk ms (mapping, g)))
       = fst ` set mapping \<union> m_text ` set ms"
proof (induction ms arbitrary: mapping g)
  case Nil
  then show ?case by simp
next
  case (Cons m ms)
  show ?case
  proof (cases "m_text m \<in> fst ` set mapping")
    case True
    then show ?thesis
      using Cons.IH [OF Cons.prems, of g] by auto
  next
    case False
    obtain fake g1 where gen: "generate_replacement fk (m_entity_type m) g = (fake, g1)"
      by (cases "generate_replacement fk (m_entity_type m) g")
    have d: "distinct (map fst (mapping @ [(m_text m, fake)]))"
      using Cons.prems False by auto
    show ?thesis
      using Cons.IH [OF d, of g1] False by (auto simp add: gen)
  qed
qed

lemma count_one_of_distinct:
  "distinct (map fst xs) \<Longrightarrow> k \<in> fst ` set xs \<Longrightarrow> length (filter (\<lambda>e. fst e = k) xs) = 1"
proof (induction xs)
  case Nil
  then show ?case by simp
next
  case (Cons x xs)
  show ?case
  proof (cases "fst x = k")
    case True
    with Cons.prems(1) have "k \<notin> fst ` set xs"
      by simp
    then have "\<forall>e\<in>set xs. fst e \<noteq> k"
      by (auto simp add: image_iff)
    then have "filter (\<lambda>e. fst e = k) xs = []"
      by (simp add: filter_empty_conv)
    then show ?thesis
      using True by simp
  next
    case False
    with Cons show ?thesis by auto
  qed
qed

lemma names_faker_person:
  "generate_replacement names_faker ''PERSON'' g
     = ([''Bob Brown'', ''Jane Smith''] ! (g mod 2), Suc g)"
  by (simp add: generate_replacement_def build_replacement_generators_def names_faker_def)

lemma fixture_slices:
  "slice (d_text smith_detection_result) 0 5 = ''Smith''"
  "slice (d_text smith_detection_result) 10 18 = ''John Doe''"
  "slice (d_text junior_detection_result) 0 8 = ''Smith Jr''"
  "slice (d_text junior_detection_result) 13 25 = ''Jonathan Doe''"
  "slice (d_text junior_detection_result) 33 45 = ''Jonathan Doe''"
  by (simp_all add: smith_detection_result_def junior_detection_result_def slice_def
        slice_index_def)

text \<open>
  \<open>anonymize_with_mapping\<close> replaces key after key in the text as the replacements
  before have left it. With the mappings built for two detection results: the value put in
  for "John Doe" is rewritten because the later key "Smith" occurs in it, and the two
  occurrences of "Jonathan Doe" end differently because the later key "Smith Jr" reaches
  across the border of one of them.
\<close>

theorem mapping_interference_counterexample:
  "fst (get_replacement_mapping names_faker smith_detection_result 0)
     = [(''Smith'', ''Bob Brown''), (''John Doe'', ''Jane Smith'')]
   \<and> anonymize_with_mapping (d_text smith_detection_result)
        (fst (get_replacement_mapping names_faker smith_detection_result 0))
       = ''Bob Brown met Jane Bob Brown''
   \<and> \<not> sublist ''Jane Smith'' ''Bob Brown met Jane Bob Brown''
   \<and> fst (get_replacement_mapping names_faker junior_detection_result 0)
       = [(''Smith Jr'', ''Bob Brown''), (''Jonathan Doe'', ''Jane Smith'')]
   \<and> anonymize_with_mapping (d_text junior_detection_result)
        (fst (get_replacement_mapping names_faker junior_detection_result 0))
       = ''Bob Brown met Jane Bob Brown and Jane Smith''"
proof -
  have a: "fst (get_replacement_mapping names_faker smith_detection_result 0)
     = [(''Smith'', ''Bob Brown''), (''John Doe'', ''Jane Smith'')]"
    by (simp add: get_replacement_mapping_def smith_detection_result_def new_PIIMatch_def
          names_faker_person)
  have b: "anonymize_with_mapping (d_text smith_detection_result)
        [(''Smith'', ''Bob Brown''), (''John Doe'', ''Jane Smith'')]
       = ''Bob Brown met Jane Bob Brown''"
    by (simp add: anonymize_with_mapping_def sorted_by_reverse_def str_replace_def
          smith_detection_result_def)
  have c: "\<not> sublist ''Jane Smith'' ''Bob Brown met Jane Bob Brown''"
    by (simp add: sublist_Cons_right)
  have d: "fst (get_replacement_mapping names_faker junior_detection_result 0)
       = [(''Smith Jr'', ''Bob Brown''), (''Jonathan Doe'', ''Jane Smith'')]"
    by (simp add: get_replacement_mapping_def junior_detection_result_def new_PIIMatch_def
          names_faker_person)
  have e: "anonymize_with_mapping (d_text junior_detection_result)
        [(''Smith Jr'', ''Bob Brown''), (''Jonathan Doe'', ''Jane Smith'')]
       = ''Bob Brown met Jane Bob Brown and Jane Smith''"
    by (simp add: anonymize_with_mapping_def sorted_by_reverse_def str_replace_def
          junior_detection_result_def)
  show ?thesis
    using b c e unfolding a d by simp
qed

lemma chunks_from_nonempty: "chunks_from k acc items \<noteq> []"
  by (induction items arbitrary: acc) simp_all

lemma str_join_Cons: "cs \<noteq> [] \<Longrightarrow> str_join sep (c # cs) = c @ sep @ str_join sep cs"
  by (cases cs) simp_all

lemma join_chunks_from: "str_join k (chunks_from k acc items) = acc @ plain items"
proof (induction items arbitrary: acc)
  case Nil
  show ?case by (simp add: plain_def)
next
  case (Cons i items)
  show ?case
  proof (cases "i = Inr k")
    case True
    have "str_join k (acc # chunks_from k [] items) = acc @ k @ str_join k (chunks_from k [] items)"
      by (rule str_join_Cons) (rule chunks_from_nonempty)
    then show ?thesis
      using True Cons.IH [of "[]"] by (simp add: plain_def piece_def)
  next
    case False
    then show ?thesis
      using Cons.IH [of "acc @ piece i"] by (simp add: plain_def)
  qed
qed

lemma join_chunks_from_subst:
  "str_join v (chunks_from k acc items) = acc @ plain (subst_key k v items)"
proof (induction items arbitrary: acc)
  case Nil
  show ?case by (simp add: plain_def subst_key_def)
next
  case (Cons i items)
  show ?case
  proof (cases "i = Inr k")
    case True
    have "str_join v (acc # chunks_from k [] items) = acc @ v @ str_join v (chunks_from k [] items)"
      by (rule str_join_Cons) (rule chunks_from_nonempty)
    then show ?thesis
      using True Cons.IH [of "[]"] by (simp add: plain_def piece_def subst_key_def)
  next
    case False
    then show ?thesis
      using Cons.IH [of "acc @ piece i"] by (simp add: plain_def subst_key_def)
  qed
qed

lemma str_replace_only_marked:
  assumes "only_marked k items"
  shows "str_replace (plain items) k v = plain (subst_key k v items)"
proof -
  from assms have k: "k \<noteq> []"
    and a: "\<forall>c\<in>set (butlast (chunks k items)). \<not> sublist k (c @ butlast k)"
    and b: "\<not> sublist k (last (chunks k items))"
    by (simp_all add: only_marked_def list_all_iff)
  have ne: "chunks k items \<noteq> []"
    by (simp add: chunks_def chunks_from_nonempty)
  have "replace_nonempty k v (str_join k (chunks k items)) = str_join v (chunks k items)"
    using k ne a b by (rule replace_nonempty_join)
  moreover have "str_join k (chunks k items) = plain items"
    using join_chunks_from [of k "[]" items] by (simp add: chunks_def)
  moreover have "str_join v (chunks k items) = plain (subst_key k v items)"
    using join_chunks_from_subst [of v k "[]" items] by (simp add: chunks_def)
  ultimately show ?thesis
    using k by (simp add: str_replace_def)
qed

lemma foldl_clean_run:
  "clean_run es items \<Longrightarrow>
   foldl (\<lambda>result (original, replacement). str_replace result original replacement)
     (plain items) es
   = plain (foldl (\<lambda>is e. subst_key (fst e) (snd e) is) items es)"
proof (induction es arbitrary: items)
  case Nil
  show ?case by simp
next
  case (Cons e es)
  obtain k v where e: "e = (k, v)" by (cases e)
  from Cons.prems have m: "only_marked k items" and c: "clean_run es (subst_key k v items)"
    by (simp_all add: e)
  show ?case
    using Cons.IH [OF c] str_replace_only_marked [OF m, of v] by (simp add: e)
qed

lemma substituted_subst_key:
  "substituted es (subst_key k v items) = substituted ((k, v) # es) items"
proof -
  have "(case (if i = Inr k then Inl v else i) of Inl s \<Rightarrow> s
           | Inr k' \<Rightarrow> (case map_of es k' of Some w \<Rightarrow> w | None \<Rightarrow> k'))
      = (case i of Inl s \<Rightarrow> s
           | Inr k' \<Rightarrow> (case map_of ((k, v) # es) k' of Some w \<Rightarrow> w | None \<Rightarrow> k'))" for i
    by (cases i) auto
  then show ?thesis
    by (simp add: substituted_def subst_key_def comp_def)
qed

lemma plain_foldl_subst:
  "plain (foldl (\<lambda>is e. subst_key (fst e) (snd e) is) items es) = substituted es items"
proof (induction es arbitrary: items)
  case Nil
  have "piece = (\<lambda>i. case i of Inl s \<Rightarrow> s | Inr k \<Rightarrow> k)"
    by (rule ext) (simp add: piece_def)
  then show ?case
    by (simp add: plain_def substituted_def cong: sum.case_cong)
next
  case (Cons e es)
  show ?case
    using Cons.IH [of "subst_key (fst e) (snd e) items"]
      substituted_subst_key [of es "fst e" "snd e" items] by simp
qed

lemma longest_first_sorted:
  "longest_first mapping (sorted_by_reverse (\<lambda>x. length (fst x)) mapping)"
proof -
  let ?f = "\<lambda>x :: string \<times> string. length (fst x)"
  let ?es = "rev (sort_key ?f (rev mapping))"
  have "mset ?es = mset mapping"
    by simp
  moreover have "sorted (rev (map ?f ?es))"
    by (simp add: rev_map)
  moreover have "filter (\<lambda>x. ?f x = n) ?es = filter (\<lambda>x. ?f x = n) mapping" for n
  proof -
    have "filter (\<lambda>x. ?f x = n) ?es = rev (filter (\<lambda>x. ?f x = n) (sort_key ?f (rev mapping)))"
      by (simp add: rev_filter)
    also have "\<dots> = rev (filter (\<lambda>x. ?f x = n) (rev mapping))"
      by (simp only: sort_key_stable)
    also have "\<dots> = filter (\<lambda>x. ?f x = n) mapping"
      by (simp add: rev_filter)
    finally show ?thesis .
  qed
  ultimately show ?thesis
    by (simp add: longest_first_def sorted_by_reverse_def list_all_iff)
qed

lemma longest_first_unique:
  assumes "longest_first mapping es"
  shows "es = sorted_by_reverse (\<lambda>x. length (fst x)) mapping"
proof -
  let ?f = "\<lambda>x :: string \<times> string. length (fst x)"
  from assms have ms: "mset es = mset mapping" and srt: "sorted (rev (map ?f es))"
    and st: "\<forall>e\<in>set mapping. filter (\<lambda>x. ?f x = ?f e) es = filter (\<lambda>x. ?f x = ?f e) mapping"
    by (simp_all add: longest_first_def list_all_iff)
  have set_eq: "set es = set mapping"
    using ms by (rule mset_eq_setD)
  have "sort_key ?f (rev mapping) = rev es"
  proof (rule properties_for_sort_key)
    show "mset (rev es) = mset (rev mapping)"
      using ms by simp
    show "sorted (map ?f (rev es))"
      using srt by (simp add: rev_map)
    fix k assume "k \<in> set (rev es)"
    then have "k \<in> set mapping"
      using set_eq by simp
    with st have "filter (\<lambda>x. ?f x = ?f k) es = filter (\<lambda>x. ?f x = ?f k) mapping"
      by blast
    moreover have "(\<lambda>x. ?f k = ?f x) = (\<lambda>x. ?f x = ?f k)"
      by auto
    ultimately show "filter (\<lambda>x. ?f k = ?f x) (rev es) = filter (\<lambda>x. ?f k = ?f x) (rev mapping)"
      by (simp add: rev_filter [symmetric])
  qed
  then show ?thesis
    by (simp add: sorted_by_reverse_def)
qed

lemma substituted_permuted:
  assumes "distinct (map fst mapping)" and "mset es = mset mapping"
  shows "substituted es items = substituted mapping items"
proof -
  have "mset (map fst es) = mset (map fst mapping)"
    using assms(2) by simp
  then have "distinct (map fst es)"
    using assms(1) by (metis mset_eq_imp_distinct_iff)
  moreover have "set es = set mapping"
    using assms(2) by (rule mset_eq_setD)
  ultimately have "map_of es = map_of mapping"
    using assms(1) by (simp add: map_of_inject_set)
  then show ?thesis
    by (simp add: substituted_def cong: sum.case_cong)
qed

text \<open>
  C6, as the code has it. The mapping built for a detection result has distinct keys and
  exactly one entry for the original value of every match, however often that value is
  matched. \<open>anonymize_with_mapping\<close> applies \<open>str.replace\<close> entry after entry, the
  entries in descending length of their keys and entries with keys of one length in the
  order of the mapping, each to the text as the entries before have left it. Take a text
  laid out as pieces, some of them marked as occurrences of keys. If at the turn of every
  key the key is not empty and occurs in the text as it then stands only at the pieces
  marked for it, the result is the text with every marked occurrence replaced by the one
  value of its key. In particular the mapping from "John Doe" to "Jane Smith" turns "John
  Doe and John Doe again" into "Jane Smith and Jane Smith again", in which "John Doe" no
  longer occurs.
\<close>

theorem mapping_consistency:
  "distinct (map fst (fst (get_replacement_mapping fk d g)))
   \<and> (\<forall>m\<in>set (matches d).
        length (filter (\<lambda>e. fst e = m_text m) (fst (get_replacement_mapping fk d g))) = 1)
   \<and> (\<exists>es. longest_first mapping es)
   \<and> (\<forall>es. longest_first mapping es \<longrightarrow>
          anonymize_with_mapping txt mapping
            = foldl (\<lambda>result (original, replacement). str_replace result original replacement)
                txt es
          \<and> (distinct (map fst mapping) \<and> clean_run es items \<longrightarrow>
               anonymize_with_mapping (plain items) mapping = substituted mapping items))
   \<and> anonymize_with_mapping ''John Doe and John Doe again'' [(''John Doe'', ''Jane Smith'')]
       = ''Jane Smith and Jane Smith again''
   \<and> \<not> sublist ''John Doe'' ''Jane Smith and Jane Smith again''"
proof (intro conjI ballI allI impI)
  from replacement_mapping_loop_keys [of "[]" fk "matches d" g]
  have keys: "distinct (map fst (fst (get_replacement_mapping fk d g)))"
    "fst ` set (fst (get_replacement_mapping fk d g)) = m_text ` set (matches d)"
    by (simp_all add: get_replacement_mapping_def)
  show "distinct (map fst (fst (get_replacement_mapping fk d g)))"
    by (rule keys(1))
  fix m assume "m \<in> set (matches d)"
  then have "m_text m \<in> fst ` set (fst (get_replacement_mapping fk d g))"
    unfolding keys(2) by simp
  with keys(1)
  show "length (filter (\<lambda>e. fst e = m_text m) (fst (get_replacement_mapping fk d g))) = 1"
    by (rule count_one_of_distinct)
next
  show "\<exists>es. longest_first mapping es"
    using longest_first_sorted by blast
next
  fix es assume "longest_first mapping es"
  then have "es = sorted_by_reverse (\<lambda>x. length (fst x)) mapping"
    by (rule longest_first_unique)
  then show "anonymize_with_mapping txt mapping
            = foldl (\<lambda>result (original, replacement). str_replace result original replacement)
                txt es"
    by (simp add: anonymize_with_mapping_def)
next
  fix es
  assume lf: "longest_first mapping es"
    and a: "distinct (map fst mapping) \<and> clean_run es items"
  from lf have es: "es = sorted_by_reverse (\<lambda>x. length (fst x)) mapping"
    by (rule longest_first_unique)
  from lf have ms: "mset es = mset mapping"
    by (simp add: longest_first_def)
  have "anonymize_with_mapping (plain items) mapping
          = foldl (\<lambda>result (original, replacement). str_replace result original replacement)
              (plain items) es"
    by (simp add: anonymize_with_mapping_def es)
  also have "\<dots> = plain (foldl (\<lambda>is e. subst_key (fst e) (snd e) is) items es)"
    using a by (intro foldl_clean_run) simp
  also have "\<dots> = substituted es items"
    by (rule plain_foldl_subst)
  also have "\<dots> = substituted mapping items"
    using a ms by (intro substituted_permuted) simp_all
  finally show "anonymize_with_mapping (plain items) mapping = substituted mapping items" .
next
  show "anonymize_with_mapping ''John Doe and John Doe again'' [(''John Doe'', ''Jane Smith'')]
       = ''Jane Smith and Jane Smith again''"
    by (simp add: anonymize_with_mapping_def sorted_by_reverse_def str_replace_def)
next
  show "\<not> sublist ''John Doe'' ''Jane Smith and Jane Smith again''"
    by (simp add: sublist_Cons_right)
qed

theorem mapping_consistency_witness:
  "fst (get_replacement_mapping test_faker repeated_detection_result 0)
     = [(''John Doe'', ''Jane Smith'')]
   \<and> length (filter (\<lambda>e. fst e = ''John Doe'')
        (fst (get_replacement_mapping test_faker repeated_detection_result 0))) = 1
   \<and> fst (get_replacement_mapping test_faker ssn_detection_result 0)
       = [(''John Doe'', ''Jane Smith''), (''123-45-6789'', ''078-05-1120'')]
   \<and> longest_first [(''John Doe'', ''Jane Smith''), (''123-45-6789'', ''078-05-1120'')]
        [(''123-45-6789'', ''078-05-1120''), (''John Doe'', ''Jane Smith'')]
   \<and> clean_run [(''123-45-6789'', ''078-05-1120''), (''John Doe'', ''Jane Smith'')]
        [Inr ''John Doe'', Inl '' has SSN '', Inr ''123-45-6789'']
   \<and> plain [Inr ''John Doe'', Inl '' has SSN '', Inr ''123-45-6789'']
       = d_text ssn_detection_result
   \<and> anonymize_with_mapping (d_text ssn_detection_result)
        (fst (get_replacement_mapping test_faker ssn_detection_result 0))
       = ''Jane Smith has SSN 078-05-1120''"
proof -
  let ?mapping = "[(''John Doe'', ''Jane Smith''), (''123-45-6789'', ''078-05-1120'')]"
  let ?es = "[(''123-45-6789'', ''078-05-1120''), (''John Doe'', ''Jane Smith'')]"
  let ?items = "[Inr ''John Doe'', Inl '' has SSN '', Inr ''123-45-6789''] :: layout"
  let ?m = "new_PIIMatch ''PERSON'' ''John Doe'' 0 8 0.85 None"
  note t = mapping_consistency [of test_faker repeated_detection_result 0 ?mapping
             "d_text ssn_detection_result" ?items]
  have gen: "\<And>g. generate_replacement test_faker ''PERSON'' g = (''Jane Smith'', Suc g)"
    "\<And>g. generate_replacement test_faker ''US_SSN'' g = (''078-05-1120'', Suc g)"
    by (simp_all add: generate_replacement_def build_replacement_generators_def test_faker_def)
  have a: "fst (get_replacement_mapping test_faker repeated_detection_result 0)
             = [(''John Doe'', ''Jane Smith'')]"
    by (simp add: get_replacement_mapping_def repeated_detection_result_def new_PIIMatch_def gen)
  have m: "?m \<in> set (matches repeated_detection_result)" "m_text ?m = ''John Doe''"
    by (simp_all add: repeated_detection_result_def new_PIIMatch_def)
  from t m(1) have "length (filter (\<lambda>e. fst e = m_text ?m)
        (fst (get_replacement_mapping test_faker repeated_detection_result 0))) = 1"
    by blast
  then have b: "length (filter (\<lambda>e. fst e = ''John Doe'')
        (fst (get_replacement_mapping test_faker repeated_detection_result 0))) = 1"
    unfolding m(2) .
  have c: "fst (get_replacement_mapping test_faker ssn_detection_result 0) = ?mapping"
    by (simp add: get_replacement_mapping_def ssn_detection_result_def new_PIIMatch_def gen)
  have "sorted_by_reverse (\<lambda>x. length (fst x)) ?mapping = ?es"
    by (simp add: sorted_by_reverse_def)
  then have lf: "longest_first ?mapping ?es"
    using longest_first_sorted [of ?mapping] by simp
  have d: "distinct (map fst ?mapping)"
    by simp
  have cr: "clean_run ?es ?items"
    by (simp add: only_marked_def chunks_def subst_key_def piece_def sublist_Cons_right)
  have p: "plain ?items = d_text ssn_detection_result"
    by (simp add: plain_def piece_def ssn_detection_result_def)
  have s: "substituted ?mapping ?items = ''Jane Smith has SSN 078-05-1120''"
    by (simp add: substituted_def)
  from t lf d cr have "anonymize_with_mapping (plain ?items) ?mapping = substituted ?mapping ?items"
    by blast
  then have e: "anonymize_with_mapping (d_text ssn_detection_result) ?mapping
                  = ''Jane Smith has SSN 078-05-1120''"
    unfolding p s .
  show ?thesis
    using a b lf cr p e unfolding c by simp
qed

end
